theory Spec2Isabelle
  imports Complex_Main "HOL-Library.Word" "HOL-Library.Monad_Syntax"
begin

section \<open>Utility macros of pixel\_shuffle.c\<close>

text \<open>
  The C \<^verbatim>\<open>int\<close> values of the curve generator are modelled as mathematical integers.
  The output buffer holds \<^verbatim>\<open>2 * width * height\<close> 32-bit entries inside a WebAssembly
  memory of at most 1 GiB, so \<^verbatim>\<open>width * height < 2^27\<close> on every input the module can
  receive, and no expression of the generator leaves the 32-bit range there.
\<close>

definition ABS :: "int \<Rightarrow> int" where
  "ABS x = (if x < 0 then - x else x)"

definition SIGN :: "int \<Rightarrow> int" where
  "SIGN x = (if x > 0 then 1 else (if x < 0 then - 1 else 0))"

text \<open>\<^verbatim>\<open>x >> 1\<close>: the arithmetic right shift by one bit.\<close>

definition floor_div2 :: "int \<Rightarrow> int" where
  "floor_div2 x = drop_bit 1 x"

text \<open>C's \<^verbatim>\<open>%\<close>: the remainder of the division that truncates towards zero.\<close>

definition c_rem :: "int \<Rightarrow> int \<Rightarrow> int" where
  "c_rem a b = sgn a * (\<bar>a\<bar> mod \<bar>b\<bar>)"

text \<open>C's \<^verbatim>\<open>/\<close> on \<^verbatim>\<open>int\<close>: truncation towards zero.\<close>

definition c_div :: "int \<Rightarrow> int \<Rightarrow> int" where
  "c_div a b = sgn a * sgn b * (\<bar>a\<bar> div \<bar>b\<bar>)"

section \<open>Curve generation\<close>

text \<open>
  The flat output buffer \<^verbatim>\<open>curve_out\<close> and the write index \<^verbatim>\<open>curve_idx\<close> are the two
  static variables that \<^verbatim>\<open>gen\<close> shares across its recursive calls.  A store outside the
  buffer has no defined result: \<open>None\<close>.
\<close>

record curve_state =
  curve_out :: "int list"
  curve_idx :: nat

text \<open>\<^verbatim>\<open>curve_out[curve_idx++] = v\<close>\<close>

definition put :: "int \<Rightarrow> curve_state \<Rightarrow> curve_state option" where
  "put v s =
     (if curve_idx s < length (curve_out s)
      then Some \<lparr>curve_out = (curve_out s)[curve_idx s := v], curve_idx = curve_idx s + 1\<rparr>
      else None)"

text \<open>
  The loop \<^verbatim>\<open>for (int i = 0; i < n; i++) { put x; put y; x += dx; y += dy; }\<close> of the two
  base cases, from loop counter \<open>i\<close>.
\<close>

function emit_run ::
  "int \<Rightarrow> int \<Rightarrow> int \<Rightarrow> int \<Rightarrow> int \<Rightarrow> int \<Rightarrow> curve_state \<Rightarrow> curve_state option" where
  "emit_run i n x y dx dy s =
     (if i < n
      then (case put x s of None \<Rightarrow> None
            | Some s1 \<Rightarrow> (case put y s1 of None \<Rightarrow> None
               | Some s2 \<Rightarrow> emit_run (i + 1) n (x + dx) (y + dy) dx dy s2))
      else Some s)"
  by pat_completeness auto
termination
  by (relation "measure (\<lambda>(i, n, x, y, dx, dy, s). nat (n - i))") auto

declare emit_run.simps [simp del]

text \<open>
  \<^verbatim>\<open>gen\<close> recurses without a guard on the extents (with both vectors zero it calls
  itself on the same arguments for ever), so it is a partial function: \<open>None\<close> is the
  call that does not return, or that stores outside the buffer.
\<close>

partial_function (option) gen ::
  "int \<Rightarrow> int \<Rightarrow> int \<Rightarrow> int \<Rightarrow> int \<Rightarrow> int \<Rightarrow> curve_state \<Rightarrow> curve_state option" where
  "gen x y ax ay bx by s =
     (let w = ABS (ax + ay); h = ABS (bx + by);
          dax = SIGN ax; day = SIGN ay;
          dbx = SIGN bx; dby = SIGN by
      in if h = 1 then emit_run 0 w x y dax day s
         else if w = 1 then emit_run 0 h x y dbx dby s
         else
           let ax2 = floor_div2 ax; ay2 = floor_div2 ay;
               bx2 = floor_div2 bx; by2 = floor_div2 by;
               w2 = ABS (ax2 + ay2);
               h2 = ABS (bx2 + by2)
           in if 2 * w > 3 * h
              then
                let nudge = (c_rem w2 2 \<noteq> 0 \<and> w > 2);
                    ax2 = (if nudge then ax2 + dax else ax2);
                    ay2 = (if nudge then ay2 + day else ay2)
                in do {
                  s1 \<leftarrow> gen x y ax2 ay2 bx by s;
                  gen (x + ax2) (y + ay2) (ax - ax2) (ay - ay2) bx by s1
                }
              else
                let nudge = (c_rem h2 2 \<noteq> 0 \<and> h > 2);
                    bx2 = (if nudge then bx2 + dbx else bx2);
                    by2 = (if nudge then by2 + dby else by2)
                in do {
                  s1 \<leftarrow> gen x y bx2 by2 ax2 ay2 s;
                  s2 \<leftarrow> gen (x + bx2) (y + by2) ax ay (bx - bx2) (by - by2) s1;
                  gen (x + (ax - dax) + (bx2 - dbx))
                      (y + (ay - day) + (by2 - dby))
                      (- bx2) (- by2)
                      (- (ax - ax2)) (- (ay - ay2)) s2
                })"

declare gen.simps [code]

text \<open>
  The arguments \<open>(x, y, ax, ay, bx, by)\<close> of the recursive calls in the body of \<^verbatim>\<open>gen\<close>
  (lines 65 to 82), in the order they are made; none when the call ends in one of the
  two base cases.  \<open>gen_runs_calls\<close> below proves that \<^verbatim>\<open>gen\<close> runs exactly these calls.
\<close>

type_synonym call = "int \<times> int \<times> int \<times> int \<times> int \<times> int"

definition gen_calls :: "call \<Rightarrow> call list" where
  "gen_calls c =
     (case c of (x, y, ax, ay, bx, by) \<Rightarrow>
      let w = ABS (ax + ay); h = ABS (bx + by);
          dax = SIGN ax; day = SIGN ay;
          dbx = SIGN bx; dby = SIGN by
      in if h = 1 then []
         else if w = 1 then []
         else
           let ax2 = floor_div2 ax; ay2 = floor_div2 ay;
               bx2 = floor_div2 bx; by2 = floor_div2 by;
               w2 = ABS (ax2 + ay2);
               h2 = ABS (bx2 + by2)
           in if 2 * w > 3 * h
              then
                let nudge = (c_rem w2 2 \<noteq> 0 \<and> w > 2);
                    ax2 = (if nudge then ax2 + dax else ax2);
                    ay2 = (if nudge then ay2 + day else ay2)
                in [(x, y, ax2, ay2, bx, by),
                    (x + ax2, y + ay2, ax - ax2, ay - ay2, bx, by)]
              else
                let nudge = (c_rem h2 2 \<noteq> 0 \<and> h > 2);
                    bx2 = (if nudge then bx2 + dbx else bx2);
                    by2 = (if nudge then by2 + dby else by2)
                in [(x, y, bx2, by2, ax2, ay2),
                    (x + bx2, y + by2, ax, ay, bx - bx2, by - by2),
                    (x + (ax - dax) + (bx2 - dbx), y + (ay - day) + (by2 - dby),
                     - bx2, - by2, - (ax - ax2), - (ay - ay2))])"

fun run_calls :: "call list \<Rightarrow> curve_state \<Rightarrow> curve_state option" where
  "run_calls [] s = Some s"
| "run_calls ((x, y, ax, ay, bx, by) # cs) s =
     Option.bind (gen x y ax ay bx by s) (run_calls cs)"

text \<open>
  The calls of \<^verbatim>\<open>gen\<close> that \<^verbatim>\<open>gilbert2d(width, height, out)\<close> causes: the one it makes, and
  the recursive calls of every such call.
\<close>

inductive reach :: "int \<Rightarrow> int \<Rightarrow> call \<Rightarrow> bool" for width height where
  top: "reach width height
          (if width \<ge> height then (0, 0, width, 0, 0, height) else (0, 0, 0, height, width, 0))"
| sub: "reach width height c \<Longrightarrow> c' \<in> set (gen_calls c) \<Longrightarrow> reach width height c'"

text \<open>The area of the block of a call: the product of the two extents.\<close>

definition area :: "call \<Rightarrow> int" where
  "area c = (case c of (x, y, ax, ay, bx, by) \<Rightarrow> ABS (ax + ay) * ABS (bx + by))"

text \<open>
  \<^verbatim>\<open>gilbert2d(width, height, out)\<close>: \<open>out\<close> is the caller's buffer; the result is the
  buffer after the call.
\<close>

definition gilbert2d :: "int \<Rightarrow> int \<Rightarrow> int list \<Rightarrow> int list option" where
  "gilbert2d width height out =
     map_option curve_out
       (let s = \<lparr>curve_out = out, curve_idx = 0\<rparr>
        in if width \<ge> height
           then gen 0 0 width 0 0 height s
           else gen 0 0 0 height width 0 s)"

text \<open>The coordinate sequence stored in a flat buffer: entry \<open>i\<close> is \<open>(out[2i], out[2i+1])\<close>.\<close>

fun coords :: "int list \<Rightarrow> (int \<times> int) list" where
  "coords (x # y # r) = (x, y) # coords r"
| "coords _ = []"


section \<open>Index precomputation\<close>

text \<open>
  Reads and writes of C arrays: an access outside the array has no defined result,
  \<open>None\<close>.
\<close>

definition rd :: "'a list \<Rightarrow> int \<Rightarrow> 'a option" where
  "rd xs i = (if 0 \<le> i \<and> i < int (length xs) then Some (xs ! nat i) else None)"

definition wr :: "'a list \<Rightarrow> int \<Rightarrow> 'a \<Rightarrow> 'a list option" where
  "wr xs i v = (if 0 \<le> i \<and> i < int (length xs) then Some (xs[nat i := v]) else None)"




section \<open>Pixel shuffle\<close>

type_synonym u32 = "32 word"

text \<open>
  The \<^verbatim>\<open>double\<close> computation of the rotation offset is modelled over the real numbers:
  \<^verbatim>\<open>golden = (sqrt(5.0) - 1.0) / 2.0\<close> and \<^verbatim>\<open>offset = (int)(golden * totalPixels + 0.5)\<close>,
  the cast truncating towards zero.  The rounding of the floating-point operations is
  not part of the model; the loops below only depend on \<open>0 \<le> offset \<le> totalPixels\<close>,
  which holds with a margin no rounding error reaches.
\<close>

definition golden :: real where
  "golden = (sqrt 5 - 1) / 2"

definition c_trunc :: "real \<Rightarrow> int" where
  "c_trunc r = (if r < 0 then \<lceil>r\<rceil> else \<lfloor>r\<rfloor>)"

definition golden_offset :: "int \<Rightarrow> int" where
  "golden_offset totalPixels = c_trunc (golden * real_of_int totalPixels + 1 / 2)"

text \<open>
  The product \<^verbatim>\<open>i * 100\<close> of the progress report is a 32-bit \<^verbatim>\<open>int\<close> product and leaves
  the 32-bit range once \<open>i > 21474836\<close>, on images the module can hold; the
  WebAssembly multiplication the module is compiled to wraps around (two's complement),
  which \<open>wrap32\<close> writes out.  The other sums of the loop stay below \<open>2 * totalPixels\<close>.
\<close>

definition wrap32 :: "int \<Rightarrow> int" where
  "wrap32 v = (v + 2 ^ 31) mod 2 ^ 32 - 2 ^ 31"

text \<open>
  The state a call of \<^verbatim>\<open>pixel_shuffle\<close> changes: the destination buffer and the global
  \<^verbatim>\<open>g_progress\<close>.  \<^verbatim>\<open>g_progress\<close> is \<^verbatim>\<open>volatile\<close>, so every store to it is observable;
  \<open>g_stores\<close> records the stored values in order.
\<close>

record shuffle_state =
  dstPtr :: "u32 list"
  g_progress :: int
  g_stores :: "int list"

definition store_progress :: "int \<Rightarrow> shuffle_state \<Rightarrow> shuffle_state" where
  "store_progress v st = st\<lparr>g_progress := v, g_stores := g_stores st @ [v]\<rparr>"

text \<open>
  The two loops of \<^verbatim>\<open>pixel_shuffle\<close> have the same body but for the copy statement:
  \<^verbatim>\<open>dstPtr[p2] = srcPtr[p1]\<close> when encrypting, \<^verbatim>\<open>dstPtr[p1] = srcPtr[p2]\<close> when
  decrypting.  \<open>shuffle_loop\<close> is that loop from the loop variable \<open>i\<close> and the
  local \<open>nextReport\<close>.
\<close>

function shuffle_loop ::
  "bool \<Rightarrow> int \<Rightarrow> int \<Rightarrow> int \<Rightarrow> int \<Rightarrow> int \<Rightarrow> int list \<Rightarrow> u32 list \<Rightarrow>
   shuffle_state \<Rightarrow> shuffle_state option" where
  "shuffle_loop isEncrypt i nextReport totalPixels offset reportInterval idxPtr srcPtr st =
     (if i < totalPixels
      then (case rd idxPtr i of None \<Rightarrow> None
            | Some p1 \<Rightarrow>
               let j = i + offset;
                   j = (if j \<ge> totalPixels then j - totalPixels else j)
               in (case rd idxPtr j of None \<Rightarrow> None
                   | Some p2 \<Rightarrow>
                      (case rd srcPtr (if isEncrypt then p1 else p2) of None \<Rightarrow> None
                       | Some v \<Rightarrow>
                          (case wr (dstPtr st) (if isEncrypt then p2 else p1) v of None \<Rightarrow> None
                           | Some d \<Rightarrow>
                              let st1 = st\<lparr>dstPtr := d\<rparr>
                              in if i = nextReport
                                 then shuffle_loop isEncrypt (i + 1) (nextReport + reportInterval)
                                        totalPixels offset reportInterval idxPtr srcPtr
                                        (store_progress (c_div (wrap32 (i * 100)) totalPixels) st1)
                                 else shuffle_loop isEncrypt (i + 1) nextReport
                                        totalPixels offset reportInterval idxPtr srcPtr st1))))
      else Some st)"
  by pat_completeness auto
termination
  by (relation "measure (\<lambda>(e, i, nr, totalPixels, r). nat (totalPixels - i))") auto

declare shuffle_loop.simps [simp del]

definition pixel_shuffle ::
  "int \<Rightarrow> int \<Rightarrow> int list \<Rightarrow> u32 list \<Rightarrow> shuffle_state \<Rightarrow> shuffle_state option" where
  "pixel_shuffle totalPixels isEncrypt idxPtr srcPtr st =
     (let offset = golden_offset totalPixels;
          reportInterval = c_div totalPixels 20;
          reportInterval = (if reportInterval < 1 then 1 else reportInterval);
          nextReport = 0
      in map_option (store_progress 100)
           (shuffle_loop (isEncrypt \<noteq> 0) 0 nextReport totalPixels offset reportInterval
              idxPtr srcPtr st))"

text \<open>\<^verbatim>\<open>get_progress\<close> reads the global.\<close>

definition get_progress :: "shuffle_state \<Rightarrow> int" where
  "get_progress st = g_progress st"


section \<open>The curve in the frame of a block\<close>

text \<open>
  Every call of \<^verbatim>\<open>gen\<close> that \<^verbatim>\<open>gilbert2d\<close> causes works on a block whose step vectors
  are parallel to the axes: \<open>a\<close> is \<open>s\<close> units along one axis and \<open>b\<close> is \<open>t\<close> units
  along the other, \<open>s\<close> and \<open>t\<close> signed.  \<open>nudged s\<close> is the half of \<open>s\<close> after the
  parity correction, as the split computes it.
\<close>

definition nudged :: "int \<Rightarrow> int" where
  "nudged s = (if odd (s div 2) \<and> \<bar>s\<bar> > 2 then s div 2 + sgn s else s div 2)"

lemma nudged_pos: "2 \<le> s \<Longrightarrow> 0 < nudged s \<and> nudged s < s"
  unfolding nudged_def sgn_if by presburger

lemma nudged_neg: "s \<le> - 2 \<Longrightarrow> s < nudged s \<and> nudged s < 0"
  unfolding nudged_def sgn_if by presburger

lemma nudged_2: "nudged 2 = 1" "nudged (- 2) = - 1"
  unfolding nudged_def by simp_all

lemma half_pos: "2 \<le> (s::int) \<Longrightarrow> 0 < s div 2 \<and> s div 2 < s"
  by presburger

lemma half_neg: "(s::int) \<le> - 2 \<Longrightarrow> s < s div 2 \<and> s div 2 < 0"
  by presburger

lemma nudged_abs:
  assumes "2 \<le> \<bar>s\<bar>"
  shows "0 < \<bar>nudged s\<bar>" "\<bar>nudged s\<bar> < \<bar>s\<bar>" "\<bar>s - nudged s\<bar> = \<bar>s\<bar> - \<bar>nudged s\<bar>"
  using assms nudged_pos[of s] nudged_neg[of s] by linarith+

lemma half_abs:
  assumes "2 \<le> \<bar>s::int\<bar>"
  shows "0 < \<bar>s div 2\<bar>" "\<bar>s div 2\<bar> < \<bar>s\<bar>" "\<bar>s - s div 2\<bar> = \<bar>s\<bar> - \<bar>s div 2\<bar>"
  using assms half_pos[of s] half_neg[of s] by linarith+

lemma measure_sum_less:
  "(a'::int) < a \<Longrightarrow> b' \<le> b \<Longrightarrow> 0 \<le> a' \<Longrightarrow> 0 \<le> b' \<Longrightarrow> nat (a' + b') < nat (a + b)"
  by linarith

text \<open>
  \<open>lpath s t\<close> is the path of the block in its own frame: the pair \<open>(i, j)\<close> stands
  for the cell \<open>i\<close> units along \<open>a\<close>'s axis and \<open>j\<close> units along \<open>b\<close>'s axis from the
  origin of the block.  It is a specification device; \<open>genf_lpath\<close> below proves that
  \<^verbatim>\<open>gen\<close> stores exactly this path.
\<close>

function lpath :: "int \<Rightarrow> int \<Rightarrow> (int \<times> int) list" where
  "lpath s t =
    (if s = 0 \<or> t = 0 then []
     else if \<bar>t\<bar> = 1 then map (\<lambda>i. (int i * sgn s, 0)) [0..<nat \<bar>s\<bar>]
     else if \<bar>s\<bar> = 1 then map (\<lambda>j. (0, int j * sgn t)) [0..<nat \<bar>t\<bar>]
     else if 2 * \<bar>s\<bar> > 3 * \<bar>t\<bar>
     then lpath (nudged s) t @ map (\<lambda>(a, b). (nudged s + a, b)) (lpath (s - nudged s) t)
     else map prod.swap (lpath (nudged t) (s div 2))
        @ map (\<lambda>(a, b). (a, nudged t + b)) (lpath s (t - nudged t))
        @ map (\<lambda>(a, b). (s - sgn s + b, nudged t - sgn t + a))
            (lpath (- nudged t) (- (s - s div 2))))"
  by pat_completeness auto
termination
proof (relation "measure (\<lambda>(s, t). nat (\<bar>s\<bar> + \<bar>t\<bar>))", goal_cases)
  case 1 show ?case by simp
next
  case (2 s t)
  then have s2: "2 \<le> \<bar>s\<bar>" by linarith
  show ?case unfolding in_measure prod.case
    by (rule measure_sum_less) (use nudged_abs(2)[OF s2] in simp_all)
next
  case (3 s t)
  then have s2: "2 \<le> \<bar>s\<bar>" by linarith
  have "\<bar>s - nudged s\<bar> < \<bar>s\<bar>" using nudged_abs(1,3)[OF s2] by simp
  then show ?case unfolding in_measure prod.case
    by (rule measure_sum_less) simp_all
next
  case (4 s t)
  then have s2: "2 \<le> \<bar>s\<bar>" and t2: "2 \<le> \<bar>t\<bar>" by linarith+
  have "nat (\<bar>nudged t\<bar> + \<bar>s div 2\<bar>) < nat (\<bar>t\<bar> + \<bar>s\<bar>)"
    by (rule measure_sum_less) (use nudged_abs(2)[OF t2] half_abs(2)[OF s2] in simp_all)
  then show ?case unfolding in_measure prod.case by (simp only: add.commute)
next
  case (5 s t)
  then have t2: "2 \<le> \<bar>t\<bar>" by linarith
  have "\<bar>t - nudged t\<bar> < \<bar>t\<bar>" using nudged_abs(1,3)[OF t2] by simp
  then have "nat (\<bar>t - nudged t\<bar> + \<bar>s\<bar>) < nat (\<bar>t\<bar> + \<bar>s\<bar>)"
    by (rule measure_sum_less) simp_all
  then show ?case unfolding in_measure prod.case by (simp only: add.commute)
next
  case (6 s t)
  then have s2: "2 \<le> \<bar>s\<bar>" and t2: "2 \<le> \<bar>t\<bar>" by linarith+
  have "\<bar>s - s div 2\<bar> \<le> \<bar>s\<bar>" using half_abs(1,3)[OF s2] by simp
  then have "nat (\<bar>nudged t\<bar> + \<bar>s - s div 2\<bar>) < nat (\<bar>t\<bar> + \<bar>s\<bar>)"
    using nudged_abs(2)[OF t2] by (intro measure_sum_less) simp_all
  then show ?case unfolding in_measure prod.case by (simp only: add.commute abs_minus_cancel)
qed


declare lpath.simps [simp del]

fun flat :: "(int \<times> int) list \<Rightarrow> int list" where
  "flat [] = []"
| "flat ((x, y) # r) = x # y # flat r"

fun emits :: "int list \<Rightarrow> curve_state \<Rightarrow> curve_state option" where
  "emits [] s = Some s"
| "emits (v # vs) s = Option.bind (put v s) (emits vs)"

definition place :: "int \<times> int \<Rightarrow> bool \<Rightarrow> int \<times> int \<Rightarrow> int \<times> int" where
  "place p sw = (\<lambda>(a, b). if sw then (fst p + b, snd p + a) else (fst p + a, snd p + b))"

definition genf :: "bool \<Rightarrow> int \<times> int \<Rightarrow> int \<Rightarrow> int \<Rightarrow> curve_state \<Rightarrow> curve_state option" where
  "genf sw p s t st =
     gen (fst p) (snd p) (if sw then 0 else s) (if sw then s else 0)
       (if sw then t else 0) (if sw then 0 else t) st"

lemma flat_append: "flat (xs @ ys) = flat xs @ flat ys"
  by (induction xs rule: flat.induct) simp_all

lemma emits_append: "emits (xs @ ys) s = Option.bind (emits xs s) (emits ys)"
  by (induction xs arbitrary: s) (simp_all split: Option.bind_split)

lemma emits_append_fun: "emits (xs @ ys) = (\<lambda>s. Option.bind (emits xs s) (emits ys))"
  by (rule ext) (rule emits_append)

lemma upt_0_Suc_shift: "[0..<Suc m] = 0 # map Suc [0..<m]"
  by (simp add: upt_conv_Cons map_Suc_upt del: upt_Suc)

lemma emit_run_emits:
  "emit_run i n x y dx dy s =
     emits (flat (map (\<lambda>k. (x + int k * dx, y + int k * dy)) [0..<nat (n - i)])) s"
proof (induction i n x y dx dy s rule: emit_run.induct)
  case (1 i n x y dx dy s)
  show ?case
  proof (cases "i < n")
    case False
    then show ?thesis by (simp add: emit_run.simps)
  next
    case True
    then have m: "nat (n - i) = Suc (nat (n - (i + 1)))" by simp
    show ?thesis
      apply (subst emit_run.simps)
      apply (subst m)
      apply (subst upt_0_Suc_shift)
      using True 1
      apply (simp add: o_def algebra_simps split: option.splits Option.bind_split del: upt_Suc)
      done
  qed
qed

lemma ABS_abs [simp]: "ABS x = \<bar>x\<bar>" by (simp add: ABS_def)
lemma SIGN_sgn [simp]: "SIGN x = sgn x" by (simp add: SIGN_def sgn_if)
lemma floor_div2_div [simp]: "floor_div2 x = x div 2" by (simp add: floor_div2_def drop_bit_eq_div)
lemma c_rem_abs2 [simp]: "c_rem \<bar>x\<bar> 2 \<noteq> 0 \<longleftrightarrow> odd x"
  unfolding c_rem_def sgn_if by presburger

lemma gen_unfold_x:
  "gen x y s 0 0 t st =
    (if \<bar>t\<bar> = 1 then emit_run 0 \<bar>s\<bar> x y (sgn s) 0 st
     else if \<bar>s\<bar> = 1 then emit_run 0 \<bar>t\<bar> x y 0 (sgn t) st
     else if 2 * \<bar>s\<bar> > 3 * \<bar>t\<bar>
     then Option.bind (gen x y (nudged s) 0 0 t st) (gen (x + nudged s) y (s - nudged s) 0 0 t)
     else Option.bind (gen x y 0 (nudged t) (s div 2) 0 st) (\<lambda>s1.
          Option.bind (gen x (y + nudged t) s 0 0 (t - nudged t) s1)
            (gen (x + (s - sgn s)) (y + (nudged t - sgn t)) 0 (- nudged t) (- (s - s div 2)) 0)))"
  apply (subst gen.simps)
  apply (simp add: Let_def nudged_def)
  done

lemma gen_unfold_y:
  "gen x y 0 s t 0 st =
    (if \<bar>t\<bar> = 1 then emit_run 0 \<bar>s\<bar> x y 0 (sgn s) st
     else if \<bar>s\<bar> = 1 then emit_run 0 \<bar>t\<bar> x y (sgn t) 0 st
     else if 2 * \<bar>s\<bar> > 3 * \<bar>t\<bar>
     then Option.bind (gen x y 0 (nudged s) t 0 st) (gen x (y + nudged s) 0 (s - nudged s) t 0)
     else Option.bind (gen x y (nudged t) 0 0 (s div 2) st) (\<lambda>s1.
          Option.bind (gen (x + nudged t) y 0 s (t - nudged t) 0 s1)
            (gen (x + (nudged t - sgn t)) (y + (s - sgn s)) (- nudged t) 0 0 (- (s - s div 2)))))"
  apply (subst gen.simps)
  apply (simp add: Let_def nudged_def)
  done


lemma place_shift_a:
  "place p sw \<circ> (\<lambda>(a, b). (c + a, b)) = place (place p sw (c, 0)) sw"
  by (auto simp: place_def fun_eq_iff)

lemma place_shift_b:
  "place p sw \<circ> (\<lambda>(a, b). (a, c + b)) = place (place p sw (0, c)) sw"
  by (auto simp: place_def fun_eq_iff)

lemma place_swap:
  "place p sw \<circ> prod.swap = place p (\<not> sw)"
  by (auto simp: place_def fun_eq_iff)

lemma place_third:
  "place p sw \<circ> (\<lambda>(a, b). (c + b, d + a)) = place (place p sw (c, d)) (\<not> sw)"
  by (auto simp: place_def fun_eq_iff)

lemma genf_unfold:
  "genf sw p s t st =
    (if \<bar>t\<bar> = 1 then emits (flat (map (place p sw) (map (\<lambda>i. (int i * sgn s, 0)) [0..<nat \<bar>s\<bar>]))) st
     else if \<bar>s\<bar> = 1 then emits (flat (map (place p sw) (map (\<lambda>j. (0, int j * sgn t)) [0..<nat \<bar>t\<bar>]))) st
     else if 2 * \<bar>s\<bar> > 3 * \<bar>t\<bar>
     then Option.bind (genf sw p (nudged s) t st) (genf sw (place p sw (nudged s, 0)) (s - nudged s) t)
     else Option.bind (genf (\<not> sw) p (nudged t) (s div 2) st) (\<lambda>s1.
          Option.bind (genf sw (place p sw (0, nudged t)) s (t - nudged t) s1)
            (genf (\<not> sw) (place p sw (s - sgn s, nudged t - sgn t)) (- nudged t) (- (s - s div 2)))))"
proof (cases sw)
  case True
  show ?thesis
    unfolding genf_def
    apply (simp only: True if_True)
    apply (subst gen_unfold_y)
    apply (simp add: place_def emit_run_emits o_def algebra_simps)
    done
next
  case False
  show ?thesis
    unfolding genf_def
    apply (simp only: False if_False)
    apply (subst gen_unfold_x)
    apply (simp add: place_def emit_run_emits o_def algebra_simps)
    done
qed



lemma genf_lpath:
  "s \<noteq> 0 \<Longrightarrow> t \<noteq> 0 \<Longrightarrow>
   genf sw p s t = emits (flat (map (place p sw) (lpath s t)))"
proof (induction s t arbitrary: sw p rule: lpath.induct)
  case (1 s t)
  note nz = \<open>s \<noteq> 0\<close> \<open>t \<noteq> 0\<close>
  consider (row) "\<bar>t\<bar> = 1"
    | (col) "\<bar>t\<bar> \<noteq> 1" "\<bar>s\<bar> = 1"
    | (two) "\<bar>t\<bar> \<noteq> 1" "\<bar>s\<bar> \<noteq> 1" "2 * \<bar>s\<bar> > 3 * \<bar>t\<bar>"
    | (three) "\<bar>t\<bar> \<noteq> 1" "\<bar>s\<bar> \<noteq> 1" "\<not> 2 * \<bar>s\<bar> > 3 * \<bar>t\<bar>"
    by blast
  then show ?case
  proof cases
    case row
    then show ?thesis using nz
      by (intro ext, subst genf_unfold, subst lpath.simps) simp
  next
    case col
    then show ?thesis using nz
      by (intro ext, subst genf_unfold, subst lpath.simps) simp
  next
    case two
    then have s2: "2 \<le> \<bar>s\<bar>" using nz by linarith
    have n1: "nudged s \<noteq> 0" and n2: "s - nudged s \<noteq> 0"
      using nudged_abs[OF s2] by auto
    have cnd: "\<not> (s = 0 \<or> t = 0)" using nz by simp
    note ih1 = "1.IH"(1)[OF cnd two n1 nz(2)]
    note ih2 = "1.IH"(2)[OF cnd two n2 nz(2)]
    show ?thesis using nz two
      by (intro ext, subst genf_unfold, subst lpath.simps)
        (simp add: ih1 ih2 flat_append emits_append_fun place_shift_a)
  next
    case three
    then have s2: "2 \<le> \<bar>s\<bar>" and t2: "2 \<le> \<bar>t\<bar>" using nz by linarith+
    have n1: "nudged t \<noteq> 0" and n2: "t - nudged t \<noteq> 0" and n3: "- nudged t \<noteq> 0"
      using nudged_abs[OF t2] by auto
    have h1: "s div 2 \<noteq> 0" and h2: "- (s - s div 2) \<noteq> 0"
      using half_abs[OF s2] by auto
    have cnd: "\<not> (s = 0 \<or> t = 0)" using nz by simp
    note ih1 = "1.IH"(3)[OF cnd three n1 h1]
    note ih2 = "1.IH"(4)[OF cnd three nz(1) n2]
    note ih3 = "1.IH"(5)[OF cnd three n3 h2, simplified minus_diff_eq]
    show ?thesis using nz three
      by (intro ext, subst genf_unfold, subst lpath.simps)
        (simp add: ih1 ih2 ih3 flat_append emits_append_fun place_shift_b place_swap place_third)
  qed
qed



section \<open>Coverage of the grid\<close>

text \<open>
  \<open>axis s\<close> is the set of offsets along an axis that a signed extent \<open>s\<close> covers, and
  \<open>part s2 s\<close> says that \<open>s2\<close> is a proper, non-empty initial part of \<open>s\<close>.
\<close>

definition axis :: "int \<Rightarrow> int set" where
  "axis s = (if 0 < s then {0..<s} else {s<..0})"

definition part :: "int \<Rightarrow> int \<Rightarrow> bool" where
  "part s2 s \<longleftrightarrow> (0 < s2 \<and> s2 < s) \<or> (s < s2 \<and> s2 < 0)"

lemma part_nudged: "2 \<le> \<bar>s\<bar> \<Longrightarrow> part (nudged s) s"
  using nudged_pos[of s] nudged_neg[of s] unfolding part_def by linarith

lemma nudged_sgn: "2 \<le> \<bar>s\<bar> \<Longrightarrow> sgn (nudged s) = sgn s"
proof (cases "0 < s")
  case True
  assume "2 \<le> \<bar>s\<bar>"
  with True nudged_pos[of s] show ?thesis by simp
next
  case False
  assume "2 \<le> \<bar>s\<bar>"
  with False nudged_neg[of s] show ?thesis by simp
qed

lemma part_half: "2 \<le> \<bar>s\<bar> \<Longrightarrow> part (s div 2) s"
  using half_pos[of s] half_neg[of s] unfolding part_def by linarith

lemma axis_run: "s \<noteq> 0 \<Longrightarrow> (\<lambda>i. int i * sgn s) ` {0..<nat \<bar>s\<bar>} = axis s"
proof (cases "0 < s")
  case True
  then show ?thesis by (simp add: axis_def image_int_atLeastLessThan)
next
  case False
  assume "s \<noteq> 0"
  with False have neg: "s < 0" by simp
  have "(\<lambda>i. - int i) ` {0..<nat (- s)} = {s<..0}"
  proof (intro set_eqI iffI)
    fix x assume "x \<in> (\<lambda>i. - int i) ` {0..<nat (- s)}"
    then show "x \<in> {s<..0}" by auto
  next
    fix x assume "x \<in> {s<..0}"
    then have "x = - int (nat (- x))" "nat (- x) \<in> {0..<nat (- s)}" by auto
    then show "x \<in> (\<lambda>i. - int i) ` {0..<nat (- s)}" by (rule image_eqI)
  qed
  with neg show ?thesis by (simp add: axis_def)
qed

lemma axis_split: "part s2 s \<Longrightarrow> axis s2 \<union> (\<lambda>a. s2 + a) ` axis (s - s2) = axis s"
proof (intro set_eqI iffI)
  fix x assume p: "part s2 s" and "x \<in> axis s2 \<union> (\<lambda>a. s2 + a) ` axis (s - s2)"
  then show "x \<in> axis s" unfolding part_def axis_def by (auto split: if_splits)
next
  fix x assume p: "part s2 s" and x: "x \<in> axis s"
  show "x \<in> axis s2 \<union> (\<lambda>a. s2 + a) ` axis (s - s2)"
  proof (cases "x \<in> axis s2")
    case True then show ?thesis by simp
  next
    case False
    with p x have "x - s2 \<in> axis (s - s2)" unfolding part_def axis_def by (auto split: if_splits)
    then have "s2 + (x - s2) \<in> (\<lambda>a. s2 + a) ` axis (s - s2)" by (rule imageI)
    then show ?thesis by simp
  qed
qed

lemma axis_rev: "s \<noteq> 0 \<Longrightarrow> (\<lambda>a. s - sgn s + a) ` axis (- s) = axis s"
proof (intro set_eqI iffI)
  fix x assume "s \<noteq> 0" "x \<in> (\<lambda>a. s - sgn s + a) ` axis (- s)"
  then show "x \<in> axis s" unfolding axis_def by (auto simp: sgn_if split: if_splits)
next
  fix x assume s: "s \<noteq> 0" and x: "x \<in> axis s"
  then have "x - (s - sgn s) \<in> axis (- s)" unfolding axis_def by (auto simp: sgn_if split: if_splits)
  then have "s - sgn s + (x - (s - sgn s)) \<in> (\<lambda>a. s - sgn s + a) ` axis (- s)" by (rule imageI)
  then show "x \<in> (\<lambda>a. s - sgn s + a) ` axis (- s)" by simp
qed

lemma axis_rev_rest:
  assumes "part s2 s"
  shows "(\<lambda>a. s - sgn s + a) ` axis (- (s - s2)) = (\<lambda>a. s2 + a) ` axis (s - s2)"
proof -
  from assms have r: "s - s2 \<noteq> 0" and sg: "sgn (s - s2) = sgn s"
    unfolding part_def by (auto simp: sgn_if)
  have "(\<lambda>a. s - sgn s + a) ` axis (- (s - s2))
      = (\<lambda>a. s2 + a) ` ((\<lambda>a. (s - s2) - sgn (s - s2) + a) ` axis (- (s - s2)))"
    unfolding image_image sg by (rule image_cong) simp_all
  then show ?thesis using axis_rev[OF r] by simp
qed

lemma image_cross: "(\<lambda>(a, b). (f b, g a)) ` (A \<times> B) = f ` B \<times> g ` A"
  by force

lemma card_axis: "card (axis s) = nat \<bar>s\<bar>"
  unfolding axis_def by simp

lemma set_lpath: "s \<noteq> 0 \<Longrightarrow> t \<noteq> 0 \<Longrightarrow> set (lpath s t) = axis s \<times> axis t"
proof (induction s t rule: lpath.induct)
  case (1 s t)
  note nz = \<open>s \<noteq> 0\<close> \<open>t \<noteq> 0\<close>
  have cnd: "\<not> (s = 0 \<or> t = 0)" using nz by simp
  consider (row) "\<bar>t\<bar> = 1"
    | (col) "\<bar>t\<bar> \<noteq> 1" "\<bar>s\<bar> = 1"
    | (two) "\<bar>t\<bar> \<noteq> 1" "\<bar>s\<bar> \<noteq> 1" "2 * \<bar>s\<bar> > 3 * \<bar>t\<bar>"
    | (three) "\<bar>t\<bar> \<noteq> 1" "\<bar>s\<bar> \<noteq> 1" "\<not> 2 * \<bar>s\<bar> > 3 * \<bar>t\<bar>"
    by blast
  then show ?case
  proof cases
    case row
    then have "axis t = {0}" unfolding axis_def by auto
    moreover have "set (lpath s t) = (\<lambda>i. int i * sgn s) ` {0..<nat \<bar>s\<bar>} \<times> {0}"
      using nz row by (subst lpath.simps) auto
    ultimately show ?thesis using axis_run[OF nz(1)] by simp
  next
    case col
    then have "axis s = {0}" unfolding axis_def by auto
    moreover have "set (lpath s t) = {0} \<times> (\<lambda>i. int i * sgn t) ` {0..<nat \<bar>t\<bar>}"
      using nz col by (subst lpath.simps) auto
    ultimately show ?thesis using axis_run[OF nz(2)] by simp
  next
    case two
    then have s2: "2 \<le> \<bar>s\<bar>" using nz by linarith
    note p = part_nudged[OF s2]
    have n1: "nudged s \<noteq> 0" and n2: "s - nudged s \<noteq> 0"
      using nudged_abs[OF s2] by auto
    note ih1 = "1.IH"(1)[OF cnd two n1 nz(2)]
    note ih2 = "1.IH"(2)[OF cnd two n2 nz(2)]
    have "set (lpath s t) = axis (nudged s) \<times> axis t
        \<union> (\<lambda>(a, b). (nudged s + a, b)) ` (axis (s - nudged s) \<times> axis t)"
      using nz two by (subst lpath.simps) (simp add: ih1 ih2)
    also have "\<dots> = (axis (nudged s) \<union> (\<lambda>a. nudged s + a) ` axis (s - nudged s)) \<times> axis t"
      by (simp add: image_paired_Times Sigma_Un_distrib1)
    finally show ?thesis using axis_split[OF p] by simp
  next
    case three
    then have s2: "2 \<le> \<bar>s\<bar>" and t2: "2 \<le> \<bar>t\<bar>" using nz by linarith+
    note pt = part_nudged[OF t2] and ps = part_half[OF s2]
    have n1: "nudged t \<noteq> 0" and n2: "t - nudged t \<noteq> 0" and n3: "- nudged t \<noteq> 0"
      using nudged_abs[OF t2] by auto
    have h1: "s div 2 \<noteq> 0" and h2: "- (s - s div 2) \<noteq> 0"
      using half_abs[OF s2] by auto
    note ih1 = "1.IH"(3)[OF cnd three n1 h1]
    note ih2 = "1.IH"(4)[OF cnd three nz(1) n2]
    note ih3 = "1.IH"(5)[OF cnd three n3 h2, simplified minus_diff_eq]
    have "set (lpath s t) = prod.swap ` (axis (nudged t) \<times> axis (s div 2))
        \<union> (\<lambda>(a, b). (a, nudged t + b)) ` (axis s \<times> axis (t - nudged t))
        \<union> (\<lambda>(a, b). (s - sgn s + b, nudged t - sgn t + a))
            ` (axis (- nudged t) \<times> axis (- (s - s div 2)))"
      using nz three by (subst lpath.simps) (simp add: ih1 ih2 ih3 Un_assoc)
    also have "\<dots> = axis (s div 2) \<times> axis (nudged t)
        \<union> axis s \<times> (\<lambda>b. nudged t + b) ` axis (t - nudged t)
        \<union> (\<lambda>a. s div 2 + a) ` axis (s - s div 2) \<times> axis (nudged t)"
      using axis_rev[OF n1, unfolded nudged_sgn[OF t2]] axis_rev_rest[OF ps]
      by (simp add: image_cross image_paired_Times product_swap)
    also have "\<dots> = (axis (s div 2) \<union> (\<lambda>a. s div 2 + a) ` axis (s - s div 2)) \<times> axis (nudged t)
        \<union> axis s \<times> (\<lambda>b. nudged t + b) ` axis (t - nudged t)"
      by (simp add: Sigma_Un_distrib1 Un_ac)
    also have "\<dots> = axis s \<times> (axis (nudged t) \<union> (\<lambda>b. nudged t + b) ` axis (t - nudged t))"
      unfolding axis_split[OF ps] by (simp add: Sigma_Un_distrib2)
    finally show ?thesis using axis_split[OF pt] by simp
  qed
qed


lemma nat_abs_split:
  assumes "part s2 s"
  shows "nat \<bar>s2\<bar> + nat \<bar>s - s2\<bar> = nat \<bar>s\<bar>"
  using assms unfolding part_def by linarith

lemma length_lpath: "s \<noteq> 0 \<Longrightarrow> t \<noteq> 0 \<Longrightarrow> length (lpath s t) = nat \<bar>s\<bar> * nat \<bar>t\<bar>"
proof (induction s t rule: lpath.induct)
  case (1 s t)
  note nz = \<open>s \<noteq> 0\<close> \<open>t \<noteq> 0\<close>
  have cnd: "\<not> (s = 0 \<or> t = 0)" using nz by simp
  consider (row) "\<bar>t\<bar> = 1"
    | (col) "\<bar>t\<bar> \<noteq> 1" "\<bar>s\<bar> = 1"
    | (two) "\<bar>t\<bar> \<noteq> 1" "\<bar>s\<bar> \<noteq> 1" "2 * \<bar>s\<bar> > 3 * \<bar>t\<bar>"
    | (three) "\<bar>t\<bar> \<noteq> 1" "\<bar>s\<bar> \<noteq> 1" "\<not> 2 * \<bar>s\<bar> > 3 * \<bar>t\<bar>"
    by blast
  then show ?case
  proof cases
    case row
    then show ?thesis using nz by (subst lpath.simps) simp
  next
    case col
    then show ?thesis using nz by (subst lpath.simps) simp
  next
    case two
    then have s2: "2 \<le> \<bar>s\<bar>" using nz by linarith
    have n1: "nudged s \<noteq> 0" and n2: "s - nudged s \<noteq> 0"
      using nudged_abs[OF s2] by auto
    note ih1 = "1.IH"(1)[OF cnd two n1 nz(2)]
    note ih2 = "1.IH"(2)[OF cnd two n2 nz(2)]
    have "length (lpath s t) = (nat \<bar>nudged s\<bar> + nat \<bar>s - nudged s\<bar>) * nat \<bar>t\<bar>"
      using nz two by (subst lpath.simps) (simp add: ih1 ih2 add_mult_distrib)
    then show ?thesis unfolding nat_abs_split[OF part_nudged[OF s2]] .
  next
    case three
    then have s2: "2 \<le> \<bar>s\<bar>" and t2: "2 \<le> \<bar>t\<bar>" using nz by linarith+
    have n1: "nudged t \<noteq> 0" and n2: "t - nudged t \<noteq> 0" and n3: "- nudged t \<noteq> 0"
      using nudged_abs[OF t2] by auto
    have h1: "s div 2 \<noteq> 0" and h2: "- (s - s div 2) \<noteq> 0"
      using half_abs[OF s2] by auto
    note ih1 = "1.IH"(3)[OF cnd three n1 h1]
    note ih2 = "1.IH"(4)[OF cnd three nz(1) n2]
    have ih3: "length (lpath (- nudged t) (s div 2 - s)) = nat \<bar>nudged t\<bar> * nat \<bar>s - s div 2\<bar>"
      using "1.IH"(5)[OF cnd three n3 h2] by (simp add: abs_minus_commute)
    have "length (lpath s t) = nat \<bar>nudged t\<bar> * nat \<bar>s div 2\<bar>
        + nat \<bar>s\<bar> * nat \<bar>t - nudged t\<bar> + nat \<bar>nudged t\<bar> * nat \<bar>s - s div 2\<bar>"
      using nz three by (subst lpath.simps) (simp add: ih1 ih2 ih3)
    also have "\<dots> = nat \<bar>nudged t\<bar> * (nat \<bar>s div 2\<bar> + nat \<bar>s - s div 2\<bar>)
        + nat \<bar>s\<bar> * nat \<bar>t - nudged t\<bar>"
      by (simp add: add_mult_distrib2)
    also have "\<dots> = nat \<bar>s\<bar> * (nat \<bar>nudged t\<bar> + nat \<bar>t - nudged t\<bar>)"
      unfolding nat_abs_split[OF part_half[OF s2]] by (simp add: add_mult_distrib2 mult.commute)
    finally show ?thesis unfolding nat_abs_split[OF part_nudged[OF t2]] .
  qed
qed

lemma distinct_lpath: "s \<noteq> 0 \<Longrightarrow> t \<noteq> 0 \<Longrightarrow> distinct (lpath s t)"
  by (rule card_distinct) (simp add: set_lpath length_lpath card_cartesian_product card_axis)


lemma emits_buffer:
  "emits vs \<lparr>curve_out = pre @ old, curve_idx = length pre\<rparr> =
     (if length vs \<le> length old
      then Some \<lparr>curve_out = pre @ vs @ drop (length vs) old,
                 curve_idx = length pre + length vs\<rparr>
      else None)"
proof (induction vs arbitrary: pre old)
  case Nil
  show ?case by simp
next
  case (Cons v vs)
  show ?case
  proof (cases old)
    case Nil
    then show ?thesis by (simp add: put_def)
  next
    case (Cons x old')
    have "put v \<lparr>curve_out = pre @ x # old', curve_idx = length pre\<rparr>
        = Some \<lparr>curve_out = (pre @ [v]) @ old', curve_idx = length (pre @ [v])\<rparr>"
      by (simp add: put_def)
    then show ?thesis
      unfolding Cons emits.simps using Cons.IH[of "pre @ [v]" old'] by simp
  qed
qed

lemma coords_flat_append: "coords (flat cs @ r) = cs @ coords r"
  by (induction cs rule: flat.induct) simp_all

lemma length_flat: "length (flat cs) = 2 * length cs"
  by (induction cs rule: flat.induct) simp_all

lemma inj_place: "inj (place p sw)"
  by (auto simp: inj_on_def place_def split: if_splits)

text \<open>What a call of \<open>gen\<close> on a block stores, given room in the buffer.\<close>

lemma genf_buffer:
  assumes "s \<noteq> 0" "t \<noteq> 0" "2 * nat \<bar>s\<bar> * nat \<bar>t\<bar> \<le> length old"
  shows "genf sw p s t \<lparr>curve_out = pre @ old, curve_idx = length pre\<rparr>
    = Some \<lparr>curve_out = pre @ flat (map (place p sw) (lpath s t))
                 @ drop (2 * nat \<bar>s\<bar> * nat \<bar>t\<bar>) old,
             curve_idx = length pre + 2 * nat \<bar>s\<bar> * nat \<bar>t\<bar>\<rparr>"
  using assms by (simp add: genf_lpath emits_buffer length_flat length_lpath mult.assoc)

lemma gilbert2d_path:
  assumes "1 \<le> width" "1 \<le> height" "nat (2 * width * height) \<le> length out"
  shows "gilbert2d width height out =
    Some (flat (map (place (0, 0) (width < height))
                 (if width < height then lpath height width else lpath width height))
          @ drop (nat (2 * width * height)) out)"
proof -
  have n: "nat (2 * width * height) = 2 * nat \<bar>width\<bar> * nat \<bar>height\<bar>"
    using assms(1,2) by (simp add: nat_mult_distrib)
  have n': "nat (2 * width * height) = 2 * nat \<bar>height\<bar> * nat \<bar>width\<bar>"
    unfolding n by simp
  show ?thesis
  proof (cases "width < height")
    case True
    have "gen 0 0 0 height width 0 \<lparr>curve_out = out, curve_idx = 0\<rparr>
        = genf True (0, 0) height width \<lparr>curve_out = [] @ out, curve_idx = length ([] :: int list)\<rparr>"
      by (simp add: genf_def)
    also have "\<dots> = Some \<lparr>curve_out = [] @ flat (map (place (0, 0) True) (lpath height width))
                 @ drop (2 * nat \<bar>height\<bar> * nat \<bar>width\<bar>) out,
             curve_idx = length ([] :: int list) + 2 * nat \<bar>height\<bar> * nat \<bar>width\<bar>\<rparr>"
      by (rule genf_buffer) (use assms n' in simp_all)
    finally show ?thesis using True by (simp add: gilbert2d_def n')
  next
    case False
    have "gen 0 0 width 0 0 height \<lparr>curve_out = out, curve_idx = 0\<rparr>
        = genf False (0, 0) width height \<lparr>curve_out = [] @ out, curve_idx = length ([] :: int list)\<rparr>"
      by (simp add: genf_def)
    also have "\<dots> = Some \<lparr>curve_out = [] @ flat (map (place (0, 0) False) (lpath width height))
                 @ drop (2 * nat \<bar>width\<bar> * nat \<bar>height\<bar>) out,
             curve_idx = length ([] :: int list) + 2 * nat \<bar>width\<bar> * nat \<bar>height\<bar>\<rparr>"
      by (rule genf_buffer) (use assms n in simp_all)
    finally show ?thesis using False by (simp add: gilbert2d_def n)
  qed
qed

text \<open>The path of the call that \<^verbatim>\<open>gilbert2d\<close> makes.\<close>

definition top_path :: "int \<Rightarrow> int \<Rightarrow> (int \<times> int) list" where
  "top_path width height =
     map (place (0, 0) (width < height))
       (if width < height then lpath height width else lpath width height)"

lemma top_path_props:
  assumes "1 \<le> width" "1 \<le> height"
  shows "length (top_path width height) = nat (width * height)"
    and "distinct (top_path width height)"
    and "set (top_path width height) = {0..<width} \<times> {0..<height}"
proof -
  have ax: "axis width = {0..<width}" "axis height = {0..<height}"
    using assms by (simp_all add: axis_def)
  show "length (top_path width height) = nat (width * height)"
    using assms by (simp add: top_path_def length_lpath nat_mult_distrib mult.commute)
  show "distinct (top_path width height)"
    using assms by (simp add: top_path_def distinct_map distinct_lpath inj_place[THEN inj_on_subset])
  have "place (0, 0) True = prod.swap" "place (0, 0) False = id"
    by (auto simp: place_def fun_eq_iff)
  then show "set (top_path width height) = {0..<width} \<times> {0..<height}"
    using assms by (simp add: top_path_def set_lpath ax product_swap)
qed

text \<open>
  C1: for \<open>width \<ge> 1\<close> and \<open>height \<ge> 1\<close> and an output buffer of at least
  \<open>2 * width * height\<close> entries, \<^verbatim>\<open>gilbert2d\<close> returns, and the coordinate sequence it
  leaves in the buffer (the first \<open>width * height\<close> pairs) has \<open>width * height\<close> entries,
  no coordinate twice, and is as a set the whole grid \<open>[0, width) \<times> [0, height)\<close>.
  The single-line grids \<open>width = 1\<close> and \<open>height = 1\<close> are instances.
\<close>

theorem gilbert2d_covers_grid:
  assumes "1 \<le> width" and "1 \<le> height"
    and "nat (2 * width * height) \<le> length out"
  shows "\<exists>out'. gilbert2d width height out = Some out' \<and> length out' = length out \<and>
    (let cs = take (nat (width * height)) (coords out')
     in int (length cs) = width * height \<and> distinct cs \<and>
        set cs = {0..<width} \<times> {0..<height})"
proof -
  let ?cs = "top_path width height"
  let ?out' = "flat ?cs @ drop (nat (2 * width * height)) out"
  have g: "gilbert2d width height out = Some ?out'"
    using gilbert2d_path[OF assms] by (simp add: top_path_def)
  have len: "length ?cs = nat (width * height)" by (rule top_path_props[OF assms(1,2)])
  have "nat (2 * width * height) = 2 * nat (width * height)"
    using assms(1,2) by (simp add: nat_mult_distrib mult.assoc)
  then have lo: "length ?out' = length out"
    using assms(3) by (simp add: length_flat len)
  have tk: "take (nat (width * height)) (coords ?out') = ?cs"
    by (simp add: coords_flat_append len)
  have "0 \<le> width * height" using assms(1,2) by simp
  then have il: "int (length ?cs) = width * height" by (simp add: len)
  show ?thesis
    unfolding Let_def
    by (rule exI[of _ ?out'], unfold tk)
      (use g lo il top_path_props(2,3)[OF assms(1,2)] in blast)
qed


theorem gilbert2d_covers_grid_witness:
  "(1::int) \<le> 3 \<and> (1::int) \<le> 2 \<and> nat (2 * 3 * 2) \<le> length (replicate 12 (0::int)) \<and>
   gilbert2d 3 2 (replicate 12 0) = Some [0, 0, 0, 1, 1, 1, 2, 1, 2, 0, 1, 0] \<and>
   coords [0, 0, 0, 1, 1, 1, 2, 1, 2, 0, 1, 0] = [(0, 0), (0, 1), (1, 1), (2, 1), (2, 0), (1, 0)] \<and>
   distinct [(0, 0), (0, 1), (1, 1), (2, 1), (2, 0), (1, 0 :: int) :: int \<times> int] \<and>
   set [(0, 0), (0, 1), (1, 1), (2, 1), (2, 0), (1, 0)] = {0..<3 :: int} \<times> {0..<2 :: int}"
proof -
  have ev: "gilbert2d 3 2 (replicate 12 0) = Some [0, 0, 0, 1, 1, 1, 2, 1, 2, 0, 1, 0]"
    by code_simp
  show ?thesis
    using gilbert2d_covers_grid[of 3 2 "replicate 12 0"] ev by simp
qed

section \<open>Adjacency of consecutive cells\<close>

text \<open>The Chebyshev distance of two cells, and a list whose consecutive cells are at distance 1.\<close>

definition cheb :: "int \<times> int \<Rightarrow> int \<times> int \<Rightarrow> int" where
  "cheb p q = max \<bar>fst p - fst q\<bar> \<bar>snd p - snd q\<bar>"

fun chain :: "(int \<times> int) list \<Rightarrow> bool" where
  "chain (p # q # r) = (cheb p q = 1 \<and> chain (q # r))"
| "chain _ = True"

text \<open>
  The signed extents \<open>s\<close> of \<open>a\<close> in the calls that \<^verbatim>\<open>gilbert2d\<close> causes are positive, or
  even, or \<open>-1\<close> (\<open>adm\<close>); the recursion keeps it so.  On such a block the path ends at
  \<open>endp s t\<close>: the far cell of the first row, but for the single column, and for the
  block of odd positive width and height 2, which ends one cell earlier.
\<close>

definition adm :: "int \<Rightarrow> bool" where
  "adm s \<longleftrightarrow> 0 < s \<or> even s \<or> s = - 1"

definition endp :: "int \<Rightarrow> int \<Rightarrow> int \<times> int" where
  "endp s t =
     (if \<bar>s\<bar> = 1 then (0, t - sgn t)
      else if 0 < s \<and> odd s \<and> \<bar>t\<bar> = 2 then (s - 2, 0)
      else (s - sgn s, 0))"

lemma chain_append:
  "chain (xs @ ys) \<longleftrightarrow>
     chain xs \<and> chain ys \<and> (xs \<noteq> [] \<and> ys \<noteq> [] \<longrightarrow> cheb (last xs) (hd ys) = 1)"
proof (induction xs)
  case Nil
  show ?case by simp
next
  case (Cons p xs)
  note IH = this
  show ?case
  proof (cases xs)
    case Nil
    then show ?thesis by (cases ys) auto
  next
    case (Cons q r)
    with IH show ?thesis by auto
  qed
qed

lemma chain_map:
  assumes "\<And>p q. cheb (f p) (f q) = cheb p q"
  shows "chain (map f xs) = chain xs"
  by (induction xs rule: chain.induct) (simp_all add: assms)

lemma chain_run: "\<bar>d\<bar> = 1 \<Longrightarrow> chain (map (\<lambda>i. (int i * d, 0)) [0..<n])"
proof (induction n)
  case 0
  show ?case by simp
next
  case (Suc n)
  then show ?case
    by (cases n) (auto simp: chain_append cheb_def last_map algebra_simps abs_minus_commute)
qed

lemma cheb_swap: "cheb (prod.swap p) (prod.swap q) = cheb p q"
  by (simp add: cheb_def max.commute)

lemma chain_run': "\<bar>d\<bar> = 1 \<Longrightarrow> chain (map (\<lambda>i. (0, int i * d)) [0..<n])"
proof -
  assume d: "\<bar>d\<bar> = 1"
  have eq: "map (\<lambda>i. (0, int i * d)) [0..<n] = map prod.swap (map (\<lambda>i. (int i * d, 0)) [0..<n])"
    by simp
  show ?thesis unfolding eq by (subst chain_map) (simp_all only: cheb_swap chain_run[OF d])
qed

lemma sign_cases [consumes 1, case_names pos neg]:
  "2 \<le> \<bar>t :: int\<bar> \<Longrightarrow> (2 \<le> t \<Longrightarrow> P) \<Longrightarrow> (t \<le> - 2 \<Longrightarrow> P) \<Longrightarrow> P"
  by linarith

lemma nudged_pos3: "3 \<le> s \<Longrightarrow> even (nudged s)" "3 \<le> s \<Longrightarrow> 2 \<le> nudged s"
  unfolding nudged_def sgn_if by presburger+

lemma nudged_neg3: "s \<le> - 3 \<Longrightarrow> even (nudged s)" "s \<le> - 3 \<Longrightarrow> nudged s \<le> - 2"
  unfolding nudged_def sgn_if by presburger+

lemma nudged_pos4: "4 \<le> s \<Longrightarrow> nudged s + 2 \<le> s"
  unfolding nudged_def sgn_if by presburger

lemma nudged_neg4: "s \<le> - 4 \<Longrightarrow> even s \<Longrightarrow> s + 2 \<le> nudged s"
  unfolding nudged_def sgn_if by presburger


lemma adm_nudged: "2 \<le> \<bar>t\<bar> \<Longrightarrow> adm (nudged t)"
proof (induction rule: sign_cases)
  case pos
  then show ?case using nudged_pos[of t] by (simp add: adm_def)
next
  case neg
  show ?case
  proof (cases "t = - 2")
    case True
    then show ?thesis by (simp add: adm_def nudged_2)
  next
    case False
    with neg have "t \<le> - 3" by simp
    then show ?thesis using nudged_neg3(1) by (simp add: adm_def)
  qed
qed

lemma adm_neg_nudged: "2 \<le> \<bar>t\<bar> \<Longrightarrow> adm (- nudged t)"
proof (induction rule: sign_cases)
  case neg
  then show ?case using nudged_neg[of t] by (simp add: adm_def)
next
  case pos
  show ?case
  proof (cases "t = 2")
    case True
    then show ?thesis by (simp add: adm_def nudged_2)
  next
    case False
    with pos have "3 \<le> t" by simp
    then show ?thesis using nudged_pos3(1) by (simp add: adm_def)
  qed
qed

lemma nudged_unit: "\<bar>t\<bar> = 2 \<Longrightarrow> nudged t = sgn t"
proof -
  assume "\<bar>t\<bar> = 2"
  then have "t = 2 \<or> t = - 2" by linarith
  then show ?thesis by (auto simp: nudged_2)
qed

lemma nudged_big: "3 \<le> \<bar>t\<bar> \<Longrightarrow> even (nudged t) \<and> 2 \<le> \<bar>nudged t\<bar>"
proof (cases "0 < t")
  case True
  assume "3 \<le> \<bar>t\<bar>"
  with True have "3 \<le> t" by simp
  then show ?thesis using nudged_pos3[of t] by simp
next
  case False
  assume "3 \<le> \<bar>t\<bar>"
  with False have "t \<le> - 3" by simp
  then show ?thesis using nudged_neg3[of t] by simp
qed

lemma two_way_parts:
  assumes "adm s" "4 \<le> \<bar>s\<bar>"
  shows "adm (nudged s)" "adm (s - nudged s)" "2 \<le> \<bar>nudged s\<bar>" "2 \<le> \<bar>s - nudged s\<bar>"
    "even (nudged s)"
proof -
  have big: "even (nudged s)" "2 \<le> \<bar>nudged s\<bar>"
    using nudged_big[of s] assms(2) by simp_all
  show "even (nudged s)" "2 \<le> \<bar>nudged s\<bar>" by (rule big)+
  show "adm (nudged s)" using big(1) by (simp add: adm_def)
  show "adm (s - nudged s)"
  proof (cases "0 < s")
    case True
    with assms(2) have "4 \<le> s" by simp
    then show ?thesis using nudged_pos4[of s] by (simp add: adm_def)
  next
    case False
    with assms have "even s" by (auto simp: adm_def)
    then show ?thesis using big(1) by (simp add: adm_def)
  qed
  show "2 \<le> \<bar>s - nudged s\<bar>"
  proof (cases "0 < s")
    case True
    with assms(2) have "4 \<le> s" by simp
    then show ?thesis using nudged_pos4[of s] by simp
  next
    case False
    with assms have "even s" "s \<le> - 4" by (auto simp: adm_def)
    then show ?thesis using nudged_neg4[of s] by simp
  qed
qed

lemma cheb_shift_a: "cheb (case p of (a, b) \<Rightarrow> (c + a, b)) (case q of (a, b) \<Rightarrow> (c + a, b)) = cheb p q"
  by (simp add: cheb_def split: prod.splits)

lemma cheb_shift_b: "cheb (case p of (a, b) \<Rightarrow> (a, c + b)) (case q of (a, b) \<Rightarrow> (a, c + b)) = cheb p q"
  by (simp add: cheb_def split: prod.splits)

lemma cheb_third:
  "cheb (case p of (a, b) \<Rightarrow> (c + b, d + a)) (case q of (a, b) \<Rightarrow> (c + b, d + a)) = cheb p q"
  by (simp add: cheb_def max.commute split: prod.splits)

lemma run_props:
  assumes "1 \<le> n" "\<bar>d\<bar> = 1"
  shows "map (\<lambda>i. (int i * d, 0 :: int)) [0..<nat n] \<noteq> []"
    and "hd (map (\<lambda>i. (int i * d, 0 :: int)) [0..<nat n]) = (0, 0)"
    and "last (map (\<lambda>i. (int i * d, 0 :: int)) [0..<nat n]) = ((n - 1) * d, 0)"
proof -
  have ne: "[0..<nat n] \<noteq> []" using assms(1) by simp
  show "map (\<lambda>i. (int i * d, 0 :: int)) [0..<nat n] \<noteq> []" using ne by simp
  show "hd (map (\<lambda>i. (int i * d, 0 :: int)) [0..<nat n]) = (0, 0)"
    using ne assms(1) by (simp add: hd_map)
  have "last [0..<nat n] = nat n - 1" using assms(1) by (simp add: last_upt)
  then show "last (map (\<lambda>i. (int i * d, 0 :: int)) [0..<nat n]) = ((n - 1) * d, 0)"
    using ne assms(1) by (simp add: last_map)
qed

lemma abs_pred_sgn: "(\<bar>s\<bar> - 1) * sgn s = s - sgn (s :: int)"
  by (simp add: sgn_if abs_if algebra_simps)


lemma part_sgn: "part n s \<Longrightarrow> sgn n = sgn s \<and> sgn (s - n) = sgn s"
  unfolding part_def by (auto simp: sgn_if)

lemma small_blocks:
  assumes "adm s" "2 \<le> \<bar>s\<bar>" "\<bar>s\<bar> \<le> 3"
  shows "s = 2 \<or> s = 3 \<or> s = - 2"
proof -
  from assms(2,3) have "s = 2 \<or> s = 3 \<or> s = - 2 \<or> s = - 3" by linarith
  with assms(1) show ?thesis by (auto simp: adm_def)
qed

lemma lpath_walk:
  "s \<noteq> 0 \<Longrightarrow> t \<noteq> 0 \<Longrightarrow> adm s \<Longrightarrow>
   lpath s t \<noteq> [] \<and> hd (lpath s t) = (0, 0) \<and> last (lpath s t) = endp s t \<and> chain (lpath s t)"
proof (induction s t rule: lpath.induct)
  case (1 s t)
  note nz = \<open>s \<noteq> 0\<close> \<open>t \<noteq> 0\<close> and adm = \<open>adm s\<close>
  have cnd: "\<not> (s = 0 \<or> t = 0)" using nz by simp
  have sg: "\<bar>sgn s\<bar> = 1" "\<bar>sgn t\<bar> = 1" using nz by (simp_all add: sgn_if)
  consider (row) "\<bar>t\<bar> = 1"
    | (col) "\<bar>t\<bar> \<noteq> 1" "\<bar>s\<bar> = 1"
    | (two) "\<bar>t\<bar> \<noteq> 1" "\<bar>s\<bar> \<noteq> 1" "2 * \<bar>s\<bar> > 3 * \<bar>t\<bar>"
    | (three) "\<bar>t\<bar> \<noteq> 1" "\<bar>s\<bar> \<noteq> 1" "\<not> 2 * \<bar>s\<bar> > 3 * \<bar>t\<bar>"
    by blast
  then show ?case
  proof cases
    case row
    have eq: "lpath s t = map (\<lambda>i. (int i * sgn s, 0)) [0..<nat \<bar>s\<bar>]"
      using nz row by (subst lpath.simps) simp
    have one: "1 \<le> \<bar>s\<bar>" using nz by simp
    have "t - sgn t = 0" using row by (auto simp: sgn_if abs_if split: if_splits)
    then have "endp s t = (s - sgn s, 0)"
      using row by (auto simp: endp_def sgn_if abs_if split: if_splits)
    then show ?thesis
      unfolding eq using run_props[OF one sg(1)] chain_run[OF sg(1)]
      by (simp add: abs_pred_sgn)
  next
    case col
    have eq: "lpath s t = map prod.swap (map (\<lambda>i. (int i * sgn t, 0)) [0..<nat \<bar>t\<bar>])"
      using nz col by (subst lpath.simps) simp
    have one: "1 \<le> \<bar>t\<bar>" using nz by simp
    have e: "endp s t = (0, t - sgn t)" using col by (simp add: endp_def)
    have ch: "chain (map prod.swap (map (\<lambda>i. (int i * sgn t, 0)) [0..<nat \<bar>t\<bar>]))"
      by (subst chain_map) (simp_all only: cheb_swap chain_run[OF sg(2)])
    have ne: "map (\<lambda>i. (int i * sgn t, 0 :: int)) [0..<nat \<bar>t\<bar>] \<noteq> []"
      by (rule run_props[OF one sg(2)])
    show ?thesis
      unfolding eq e using run_props(2,3)[OF one sg(2)] ch ne
      by (simp add: hd_map last_map abs_pred_sgn del: map_map)
  next
    case two
    then have s2: "2 \<le> \<bar>s\<bar>" and t2: "2 \<le> \<bar>t\<bar>" using nz by linarith+
    from two t2 have four: "4 \<le> \<bar>s\<bar>" by linarith
    note tw = two_way_parts[OF adm four]
    note ps = part_sgn[OF part_nudged[OF s2]]
    have n1: "nudged s \<noteq> 0" and n2: "s - nudged s \<noteq> 0"
      using nudged_abs[OF s2] by auto
    note ih1 = "1.IH"(1)[OF cnd two n1 nz(2) tw(1)]
    note ih2 = "1.IH"(2)[OF cnd two n2 nz(2) tw(2)]
    let ?A = "lpath (nudged s) t"
    let ?B = "map (\<lambda>(a, b). (nudged s + a, b)) (lpath (s - nudged s) t)"
    have eq: "lpath s t = ?A @ ?B"
      using nz two by (subst lpath.simps) simp
    have eA: "last ?A = (nudged s - sgn s, 0)"
      using ih1 tw(3,5) ps by (simp add: endp_def)
    have B: "?B \<noteq> []" "hd ?B = (nudged s, 0)" "chain ?B"
      using ih2 by (simp_all add: hd_map chain_map[OF cheb_shift_a])
    have "odd (s - nudged s) \<longleftrightarrow> odd s" using tw(5) by simp
    moreover have "0 < s - nudged s \<longleftrightarrow> 0 < s" using ps nz by (simp add: sgn_if split: if_splits)
    ultimately have eB: "last ?B = endp s t"
      using ih2 tw(4) two(2) ps by (simp add: last_map endp_def)
    have j: "cheb (last ?A) (hd ?B) = 1"
      unfolding eA B(2) using sg(1) by (simp add: cheb_def)
    show ?thesis
      unfolding eq using ih1 B eB j by (simp add: chain_append)
  next
    case three
    then have s2: "2 \<le> \<bar>s\<bar>" and t2: "2 \<le> \<bar>t\<bar>" using nz by linarith+
    note pt = part_sgn[OF part_nudged[OF t2]] and ph = part_sgn[OF part_half[OF s2]]
    have n1: "nudged t \<noteq> 0" and n2: "t - nudged t \<noteq> 0" and n3: "- nudged t \<noteq> 0"
      using nudged_abs[OF t2] by auto
    have h1: "s div 2 \<noteq> 0" and h2: "- (s - s div 2) \<noteq> 0"
      using half_abs[OF s2] by auto
    note ih1 = "1.IH"(3)[OF cnd three n1 h1 adm_nudged[OF t2]]
    note ih2 = "1.IH"(4)[OF cnd three nz(1) n2 adm]
    note ih3 = "1.IH"(5)[OF cnd three n3 h2 adm_neg_nudged[OF t2]]
    let ?A = "map prod.swap (lpath (nudged t) (s div 2))"
    let ?B = "map (\<lambda>(a, b). (a, nudged t + b)) (lpath s (t - nudged t))"
    let ?C = "map (\<lambda>(a, b). (s - sgn s + b, nudged t - sgn t + a))
                (lpath (- nudged t) (- (s - s div 2)))"
    have eq: "lpath s t = ?A @ ?B @ ?C"
      using nz three by (subst lpath.simps) simp
    have A: "?A \<noteq> []" "hd ?A = (0, 0)" "chain ?A"
      using ih1 by (simp_all add: hd_map chain_map[OF cheb_swap])
    have B: "?B \<noteq> []" "hd ?B = (0, nudged t)" "chain ?B"
      using ih2 by (simp_all add: hd_map chain_map[OF cheb_shift_b])
    have C: "?C \<noteq> []" "hd ?C = (s - sgn s, nudged t - sgn t)" "chain ?C"
      using ih3 by (simp_all add: hd_map chain_map[OF cheb_third])
    have eA: "last ?A = (0, nudged t - sgn t)" and eC: "last ?C = endp s t"
    proof -
      show "last ?A = (0, nudged t - sgn t)"
      proof (cases "\<bar>t\<bar> = 2")
        case True
        with three(3) s2 have "\<bar>s\<bar> \<le> 3" by linarith
        from small_blocks[OF adm s2 this] have "s div 2 - sgn (s div 2) = 0" by auto
        then show ?thesis
          using ih1 nudged_unit[OF True] nz by (simp add: last_map endp_def sgn_if)
      next
        case False
        with t2 have "3 \<le> \<bar>t\<bar>" by simp
        from nudged_big[OF this] show ?thesis
          using ih1 pt by (simp add: last_map endp_def)
      qed
      show "last ?C = endp s t"
      proof (cases "\<bar>t\<bar> = 2")
        case True
        with three(3) s2 have "\<bar>s\<bar> \<le> 3" by linarith
        from small_blocks[OF adm s2 this] have "s = 2 \<or> s = 3 \<or> s = - 2" .
        then show ?thesis
          using ih3 nudged_unit[OF True] nz True
          by (auto simp: last_map endp_def sgn_if)
      next
        case False
        with t2 have "3 \<le> \<bar>t\<bar>" by simp
        from nudged_big[OF this] show ?thesis
          using ih3 pt False three(2) by (simp add: last_map endp_def)
      qed
    qed
    have j1: "cheb (last ?A) (hd ?B) = 1"
      unfolding eA B(2) using sg(2) by (simp add: cheb_def)
    have "last ?B = (s - 2, nudged t) \<and> 0 < s \<or> last ?B = (s - sgn s, nudged t)"
      using ih2 three(2) by (auto simp: last_map endp_def)
    then have j2: "cheb (last ?B) (hd ?C) = 1"
      unfolding C(2) using sg by (auto simp: cheb_def)
    show ?thesis
      unfolding eq using A B C eC j1 j2 by (simp add: chain_append)
  qed
qed



lemma chain_nth: "chain xs \<Longrightarrow> Suc i < length xs \<Longrightarrow> cheb (xs ! i) (xs ! Suc i) = 1"
proof (induction xs arbitrary: i rule: chain.induct)
  case (1 p q r)
  then show ?case by (cases i) simp_all
qed simp_all

lemma cheb_place: "cheb (place p sw a) (place p sw b) = cheb a b"
  by (cases a; cases b) (simp add: place_def cheb_def max.commute)

lemma chain_top_path:
  assumes "1 \<le> width" "1 \<le> height"
  shows "chain (top_path width height)"
proof -
  have "adm width" "adm height" using assms by (simp_all add: adm_def)
  then show ?thesis
    using assms lpath_walk[of width height] lpath_walk[of height width]
    by (simp add: top_path_def chain_map[OF cheb_place])
qed

text \<open>
  C3: for \<open>width \<ge> 1\<close> and \<open>height \<ge> 1\<close>, any two consecutive coordinates of the sequence that
  \<^verbatim>\<open>gilbert2d\<close> stores are at Chebyshev distance exactly 1: the traversal takes unit steps
  (straight or diagonal) and never jumps.
\<close>

theorem gilbert2d_adjacent:
  assumes "1 \<le> width" and "1 \<le> height"
    and "nat (2 * width * height) \<le> length out"
  shows "\<exists>out'. gilbert2d width height out = Some out' \<and>
    (let cs = take (nat (width * height)) (coords out')
     in \<forall>i. Suc i < length cs \<longrightarrow> cheb (cs ! i) (cs ! Suc i) = 1)"
proof -
  let ?cs = "top_path width height"
  let ?out' = "flat ?cs @ drop (nat (2 * width * height)) out"
  have g: "gilbert2d width height out = Some ?out'"
    using gilbert2d_path[OF assms] by (simp add: top_path_def)
  have len: "length ?cs = nat (width * height)" by (rule top_path_props[OF assms(1,2)])
  have tk: "take (nat (width * height)) (coords ?out') = ?cs"
    by (simp add: coords_flat_append len)
  have "\<forall>i. Suc i < length ?cs \<longrightarrow> cheb (?cs ! i) (?cs ! Suc i) = 1"
    using chain_nth[OF chain_top_path[OF assms(1,2)]] by blast
  then show ?thesis
    unfolding Let_def by (intro exI[of _ ?out'] conjI g, unfold tk)
qed

theorem gilbert2d_adjacent_witness:
  "(1::int) \<le> 3 \<and> (1::int) \<le> 2 \<and> nat (2 * 3 * 2) \<le> length (replicate 12 (0::int)) \<and>
   gilbert2d 3 2 (replicate 12 0) = Some [0, 0, 0, 1, 1, 1, 2, 1, 2, 0, 1, 0] \<and>
   coords [0, 0, 0, 1, 1, 1, 2, 1, 2, 0, 1, 0] = [(0, 0), (0, 1), (1, 1), (2, 1), (2, 0), (1, 0)] \<and>
   cheb (0, 0) (0, 1) = 1 \<and> cheb (0, 1) (1, 1) = 1 \<and> cheb (1, 1) (2, 1) = 1 \<and>
   cheb (2, 1) (2, 0) = 1 \<and> cheb (2, 0) (1, 0) = 1"
proof -
  have ev: "gilbert2d 3 2 (replicate 12 0) = Some [0, 0, 0, 1, 1, 1, 2, 1, 2, 0, 1, 0]"
    by code_simp
  from gilbert2d_adjacent[of 3 2 "replicate 12 0"] ev
  have a: "\<forall>i. Suc i < 6 \<longrightarrow>
      cheb ([(0, 0), (0, 1), (1, 1), (2, 1), (2, 0), (1, 0)] ! i)
           ([(0, 0), (0, 1), (1, 1), (2, 1), (2, 0), (1, 0)] ! Suc i) = 1"
    by simp
  show ?thesis
    using ev a[rule_format, of 0] a[rule_format, of 1] a[rule_format, of 2]
      a[rule_format, of 3] a[rule_format, of 4]
    by simp
qed

section \<open>The recursive calls\<close>

lemma run_calls_Nil_fun: "run_calls [] = Some"
  by (rule ext) simp

lemma run_calls_Cons_fun:
  "run_calls ((x, y, ax, ay, bx, by) # cs) =
     (\<lambda>s. Option.bind (gen x y ax ay bx by s) (run_calls cs))"
  by (rule ext) simp

lemma gen_runs_calls:
  "gen x y ax ay bx by s =
    (if ABS (bx + by) = 1 then emit_run 0 (ABS (ax + ay)) x y (SIGN ax) (SIGN ay) s
     else if ABS (ax + ay) = 1 then emit_run 0 (ABS (bx + by)) x y (SIGN bx) (SIGN by) s
     else run_calls (gen_calls (x, y, ax, ay, bx, by)) s)"
  by (subst gen.simps) (simp add: gen_calls_def Let_def run_calls_Nil_fun run_calls_Cons_fun)

text \<open>
  The call on the block at origin \<open>p\<close> with signed extents \<open>s\<close> and \<open>t\<close>; \<open>sw\<close> tells
  whether \<open>a\<close> runs along the y axis.
\<close>

definition block :: "bool \<Rightarrow> int \<times> int \<Rightarrow> int \<Rightarrow> int \<Rightarrow> call" where
  "block sw p s t =
     (fst p, snd p, if sw then 0 else s, if sw then s else 0,
      if sw then t else 0, if sw then 0 else t)"

lemma gen_calls_block:
  "gen_calls (block sw p s t) =
    (if \<bar>t\<bar> = 1 \<or> \<bar>s\<bar> = 1 then []
     else if 2 * \<bar>s\<bar> > 3 * \<bar>t\<bar>
     then [block sw p (nudged s) t, block sw (place p sw (nudged s, 0)) (s - nudged s) t]
     else [block (\<not> sw) p (nudged t) (s div 2),
           block sw (place p sw (0, nudged t)) s (t - nudged t),
           block (\<not> sw) (place p sw (s - sgn s, nudged t - sgn t))
             (- nudged t) (- (s - s div 2))])"
  by (cases sw) (simp_all add: gen_calls_def block_def Let_def nudged_def place_def)

lemma area_block: "area (block sw p s t) = \<bar>s\<bar> * \<bar>t\<bar>"
  by (simp add: area_def block_def)

definition is_block :: "call \<Rightarrow> bool" where
  "is_block c \<longleftrightarrow> (\<exists>sw p s t. c = block sw p s t \<and> s \<noteq> 0 \<and> t \<noteq> 0)"

lemma is_blockI: "s \<noteq> 0 \<Longrightarrow> t \<noteq> 0 \<Longrightarrow> is_block (block sw p s t)"
  unfolding is_block_def by blast

lemma reach_block:
  assumes "1 \<le> width" "1 \<le> height" "reach width height c"
  shows "is_block c"
  using assms(3)
proof (induction rule: reach.induct)
  case top
  show ?case
  proof (cases "width \<ge> height")
    case True
    then have "(if width \<ge> height then (0, 0, width, 0, 0, height) else (0, 0, 0, height, width, 0))
        = block False (0, 0) width height" by (simp add: block_def)
    then show ?thesis using assms(1,2) by (simp add: is_blockI)
  next
    case False
    then have "(if width \<ge> height then (0, 0, width, 0, 0, height) else (0, 0, 0, height, width, 0))
        = block True (0, 0) height width" by (simp add: block_def)
    then show ?thesis using assms(1,2) by (simp add: is_blockI)
  qed
next
  case (sub c c')
  then obtain sw p s t where c: "c = block sw p s t" and nz: "s \<noteq> 0" "t \<noteq> 0"
    unfolding is_block_def by blast
  from sub(2) have nb: "\<bar>t\<bar> \<noteq> 1" "\<bar>s\<bar> \<noteq> 1"
    unfolding c gen_calls_block by (auto split: if_splits)
  with nz have s2: "2 \<le> \<bar>s\<bar>" and t2: "2 \<le> \<bar>t\<bar>" by linarith+
  have n: "nudged s \<noteq> 0" "s - nudged s \<noteq> 0" "nudged t \<noteq> 0" "t - nudged t \<noteq> 0"
    using nudged_abs[OF s2] nudged_abs[OF t2] by auto
  have h: "s div 2 \<noteq> 0" "s - s div 2 \<noteq> 0" using half_abs[OF s2] by auto
  from sub(2) show ?case
    unfolding c gen_calls_block using nb nz n h
    by (auto split: if_splits intro!: is_blockI)
qed


text \<open>
  C8: in every call of \<^verbatim>\<open>gen\<close> that \<^verbatim>\<open>gilbert2d(width, height)\<close> causes, with
  \<open>width, height \<ge> 1\<close>, both extents \<open>|ax + ay|\<close> and \<open>|bx + by|\<close> are strictly positive:
  halving and nudging never hand a zero or negative extent to a recursive call.
\<close>

theorem reach_positive_extents:
  assumes "1 \<le> width" and "1 \<le> height"
    and "reach width height (x, y, ax, ay, bx, by)"
  shows "0 < ABS (ax + ay) \<and> 0 < ABS (bx + by)"
proof -
  from reach_block[OF assms] obtain sw p s t
    where "(x, y, ax, ay, bx, by) = block sw p s t" "s \<noteq> 0" "t \<noteq> 0"
    unfolding is_block_def by blast
  then show ?thesis by (cases sw) (simp_all add: block_def)
qed

lemma reach_3_3: "reach 3 3 (0, 0, 0, 2, 1, 0)"
proof -
  have "reach 3 3 (0, 0, 3, 0, 0, 3)" using reach.top[of 3 3] by simp
  moreover have "(0, 0, 0, 2, 1, 0) \<in> set (gen_calls (0, 0, 3, 0, 0, 3))"
    by (simp add: gen_calls_def Let_def)
  ultimately show ?thesis by (rule reach.sub)
qed

theorem reach_positive_extents_witness:
  "(1::int) \<le> 3 \<and> (1::int) \<le> 3 \<and> reach 3 3 (0, 0, 0, 2, 1, 0)
   \<and> 0 < ABS (0 + 2) \<and> 0 < ABS (1 + 0)"
  using reach_positive_extents[of 3 3 0 0 0 2 1 0] reach_3_3 by simp

lemma area_less:
  assumes "0 < a'" "a' < a" "0 < b'" "b' \<le> (b::int)"
  shows "0 < a' * b' \<and> a' * b' < a * b"
proof -
  have "a' * b' < a * b'" using assms by (simp add: mult_strict_right_mono)
  also have "\<dots> \<le> a * b" using assms by (simp add: mult_left_mono)
  finally show ?thesis using assms by simp
qed

lemma area_sub:
  assumes "is_block c" "c' \<in> set (gen_calls c)"
  shows "0 < area c' \<and> area c' < area c"
proof -
  from assms(1) obtain sw p s t where c: "c = block sw p s t" and nz: "s \<noteq> 0" "t \<noteq> 0"
    unfolding is_block_def by blast
  from assms(2) have nb: "\<bar>t\<bar> \<noteq> 1" "\<bar>s\<bar> \<noteq> 1"
    unfolding c gen_calls_block by (auto split: if_splits)
  with nz have s2: "2 \<le> \<bar>s\<bar>" and t2: "2 \<le> \<bar>t\<bar>" by linarith+
  note ns = nudged_abs[OF s2] and nt = nudged_abs[OF t2] and hs = half_abs[OF s2]
  have rs: "0 < \<bar>s - nudged s\<bar>" "\<bar>s - nudged s\<bar> < \<bar>s\<bar>" using ns by linarith+
  have rt: "0 < \<bar>t - nudged t\<bar>" "\<bar>t - nudged t\<bar> < \<bar>t\<bar>" using nt by linarith+
  have rh: "0 < \<bar>s - s div 2\<bar>" "\<bar>s - s div 2\<bar> < \<bar>s\<bar>" using hs by linarith+
  have pt: "0 < \<bar>t\<bar>" and ps: "0 < \<bar>s\<bar>" using nz by simp_all
  have a1: "0 < \<bar>nudged s\<bar> * \<bar>t\<bar> \<and> \<bar>nudged s\<bar> * \<bar>t\<bar> < \<bar>s\<bar> * \<bar>t\<bar>"
    by (rule area_less) (use ns pt in simp_all)
  have a2: "0 < \<bar>s - nudged s\<bar> * \<bar>t\<bar> \<and> \<bar>s - nudged s\<bar> * \<bar>t\<bar> < \<bar>s\<bar> * \<bar>t\<bar>"
    by (rule area_less) (use rs pt in simp_all)
  have "0 < \<bar>nudged t\<bar> * \<bar>s div 2\<bar> \<and> \<bar>nudged t\<bar> * \<bar>s div 2\<bar> < \<bar>t\<bar> * \<bar>s\<bar>"
    by (rule area_less) (use nt hs in simp_all)
  then have a3: "0 < \<bar>nudged t\<bar> * \<bar>s div 2\<bar> \<and> \<bar>nudged t\<bar> * \<bar>s div 2\<bar> < \<bar>s\<bar> * \<bar>t\<bar>"
    by (simp only: mult.commute)
  have "0 < \<bar>t - nudged t\<bar> * \<bar>s\<bar> \<and> \<bar>t - nudged t\<bar> * \<bar>s\<bar> < \<bar>t\<bar> * \<bar>s\<bar>"
    by (rule area_less) (use rt ps in simp_all)
  then have a4: "0 < \<bar>s\<bar> * \<bar>t - nudged t\<bar> \<and> \<bar>s\<bar> * \<bar>t - nudged t\<bar> < \<bar>s\<bar> * \<bar>t\<bar>"
    by (simp only: mult.commute)
  have "0 < \<bar>nudged t\<bar> * \<bar>s - s div 2\<bar> \<and> \<bar>nudged t\<bar> * \<bar>s - s div 2\<bar> < \<bar>t\<bar> * \<bar>s\<bar>"
    by (rule area_less) (use nt rh in simp_all)
  then have a5: "0 < \<bar>nudged t\<bar> * \<bar>s - s div 2\<bar> \<and> \<bar>nudged t\<bar> * \<bar>s - s div 2\<bar> < \<bar>s\<bar> * \<bar>t\<bar>"
    by (simp only: mult.commute)
  consider "c' = block sw p (nudged s) t"
    | "c' = block sw (place p sw (nudged s, 0)) (s - nudged s) t"
    | "c' = block (\<not> sw) p (nudged t) (s div 2)"
    | "c' = block sw (place p sw (0, nudged t)) s (t - nudged t)"
    | "c' = block (\<not> sw) (place p sw (s - sgn s, nudged t - sgn t)) (- nudged t) (- (s - s div 2))"
    using assms(2) unfolding c gen_calls_block by (auto split: if_splits)
  then show ?thesis
  proof cases
    case 1 show ?thesis unfolding 1 c area_block by (rule a1)
  next
    case 2 show ?thesis unfolding 2 c area_block by (rule a2)
  next
    case 3 show ?thesis unfolding 3 c area_block by (rule a3)
  next
    case 4 show ?thesis unfolding 4 c area_block by (rule a4)
  next
    case 5 show ?thesis unfolding 5 c area_block abs_minus_cancel by (rule a5)
  qed
qed

lemma gen_block_returns:
  assumes "is_block (x, y, ax, ay, bx, by)"
    and "curve_idx st + 2 * nat (area (x, y, ax, ay, bx, by)) \<le> length (curve_out st)"
  shows "\<exists>st'. gen x y ax ay bx by st = Some st'"
proof -
  from assms(1) obtain sw p s t
    where c: "(x, y, ax, ay, bx, by) = block sw p s t" and nz: "s \<noteq> 0" "t \<noteq> 0"
    unfolding is_block_def by blast
  let ?pre = "take (curve_idx st) (curve_out st)"
  let ?old = "drop (curve_idx st) (curve_out st)"
  have st: "st = \<lparr>curve_out = ?pre @ ?old, curve_idx = length ?pre\<rparr>"
    using assms(2) by (cases st) simp
  have a: "nat (area (x, y, ax, ay, bx, by)) = nat \<bar>s\<bar> * nat \<bar>t\<bar>"
    unfolding c area_block by (simp add: nat_mult_distrib)
  have room: "2 * nat \<bar>s\<bar> * nat \<bar>t\<bar> \<le> length ?old"
    using assms(2) unfolding a by simp
  have "gen x y ax ay bx by st = genf sw p s t st"
    using c by (simp add: genf_def block_def)
  also have "\<dots> = genf sw p s t \<lparr>curve_out = ?pre @ ?old, curve_idx = length ?pre\<rparr>"
    using st by simp
  finally show ?thesis
    unfolding genf_buffer[OF nz room] by blast
qed

text \<open>
  C10: every call of \<^verbatim>\<open>gen\<close> that \<^verbatim>\<open>gilbert2d(width, height)\<close> causes, with
  \<open>width, height \<ge> 1\<close>, returns (given room in the buffer for the cells of its block), and
  each of its recursive calls has a strictly smaller, positive area: no chain of calls
  is infinite.
\<close>

theorem gen_terminates:
  assumes "1 \<le> width" and "1 \<le> height"
    and "reach width height (x, y, ax, ay, bx, by)"
  shows "(\<forall>c' \<in> set (gen_calls (x, y, ax, ay, bx, by)).
            0 < area c' \<and> area c' < area (x, y, ax, ay, bx, by))
    \<and> (\<forall>st. curve_idx st + 2 * nat (area (x, y, ax, ay, bx, by)) \<le> length (curve_out st)
          \<longrightarrow> (\<exists>st'. gen x y ax ay bx by st = Some st'))"
  using area_sub[OF reach_block[OF assms]] gen_block_returns[OF reach_block[OF assms]]
  by blast

lemma reach_5_4: "reach 5 4 (0, 0, 5, 0, 0, 4)"
  using reach.top[of 5 4] by simp

theorem gen_terminates_witness:
  "(1::int) \<le> 5 \<and> (1::int) \<le> 4 \<and> reach 5 4 (0, 0, 5, 0, 0, 4) \<and>
   (0, 0, 0, 2, 2, 0) \<in> set (gen_calls (0, 0, 5, 0, 0, 4)) \<and>
   0 < area (0, 0, 0, 2, 2, 0) \<and> area (0, 0, 0, 2, 2, 0) < area (0, 0, 5, 0, 0, 4) \<and>
   (\<exists>st'. gen 0 0 5 0 0 4 \<lparr>curve_out = replicate 40 0, curve_idx = 0\<rparr> = Some st')"
proof -
  note t = gen_terminates[of 5 4 0 0 5 0 0 4, OF _ _ reach_5_4, simplified]
  have m: "(0, 0, 0, 2, 2, 0) \<in> set (gen_calls (0, 0, 5, 0, 0, 4))"
    by (simp add: gen_calls_def Let_def)
  have a: "area (0, 0, 5, 0, 0, 4) = 20" by (simp add: area_def)
  from t m have "0 < area (0, 0, 0, 2, 2, 0) \<and> area (0, 0, 0, 2, 2, 0) < area (0, 0, 5, 0, 0, 4)"
    by blast
  moreover have "\<exists>st'. gen 0 0 5 0 0 4 \<lparr>curve_out = replicate 40 0, curve_idx = 0\<rparr> = Some st'"
    using t[THEN conjunct2, rule_format, of "\<lparr>curve_out = replicate 40 0, curve_idx = 0\<rparr>"]
    by (simp add: a)
  ultimately show ?thesis using m reach_5_4 by simp
qed

section \<open>The parity nudge\<close>

text \<open>
  C5, as stated: a halved vector is nudged exactly when the half has an odd extent that
  is greater than 2.  The statement fails: the condition of the code, \<^verbatim>\<open>(h2 % 2) && (h > 2)\<close>,
  compares the extent of the whole vector with 2, not that of the half.  In the call
  \<^verbatim>\<open>gen(0, 0, 3, 0, 0, 3)\<close> that \<^verbatim>\<open>gilbert2d(3, 3)\<close> makes, the half of \<open>b = (0, 3)\<close> is
  \<open>(0, 1)\<close>, of extent 1, and the first recursive call receives \<open>(0, 2)\<close>: the half was
  nudged.
\<close>

theorem nudge_of_extent_one:
  "gen_calls (0, 0, 3, 0, 0, 3) = [(0, 0, 0, 2, 1, 0), (0, 2, 3, 0, 0, 1), (2, 1, 0, - 2, - 2, 0)]
   \<and> (floor_div2 0, floor_div2 3) = (0, 1)
   \<and> \<not> 2 < ABS (floor_div2 0 + floor_div2 3)"
  by (simp add: gen_calls_def Let_def)

text \<open>
  C5, amended: in the recursive case only the vector along which the block is split is
  nudged (\<open>a\<close> in the 2-way split, \<open>b\<close> in the 3-way split); its half is moved by one unit
  in the vector's own direction exactly when the extent of the half is odd and the
  extent of the whole vector is greater than 2.  The halved \<open>a\<close> of the 3-way split is
  passed on as it is.
\<close>

theorem gen_nudge_rule:
  assumes "ABS (bx + by) \<noteq> 1" and "ABS (ax + ay) \<noteq> 1"
  shows "gen_calls (x, y, ax, ay, bx, by) =
    (let w = ABS (ax + ay); h = ABS (bx + by);
         ka = (if odd (ABS (floor_div2 ax + floor_div2 ay)) \<and> 2 < w then 1 else 0);
         kb = (if odd (ABS (floor_div2 bx + floor_div2 by)) \<and> 2 < h then 1 else 0);
         ax2 = floor_div2 ax + ka * SIGN ax; ay2 = floor_div2 ay + ka * SIGN ay;
         bx2 = floor_div2 bx + kb * SIGN bx; by2 = floor_div2 by + kb * SIGN by
     in if 2 * w > 3 * h
        then [(x, y, ax2, ay2, bx, by),
              (x + ax2, y + ay2, ax - ax2, ay - ay2, bx, by)]
        else [(x, y, bx2, by2, floor_div2 ax, floor_div2 ay),
              (x + bx2, y + by2, ax, ay, bx - bx2, by - by2),
              (x + (ax - SIGN ax) + (bx2 - SIGN bx), y + (ay - SIGN ay) + (by2 - SIGN by),
               - bx2, - by2, - (ax - floor_div2 ax), - (ay - floor_div2 ay))])"
  using assms by (simp add: gen_calls_def Let_def)

theorem gen_nudge_rule_witness:
  "ABS (0 + 7) \<noteq> 1 \<and> ABS (7 + 0) \<noteq> 1 \<and>
   gen_calls (0, 0, 7, 0, 0, 7) = [(0, 0, 0, 4, 3, 0), (0, 4, 7, 0, 0, 3), (6, 3, 0, - 4, - 4, 0)]"
  using gen_nudge_rule[of 0 7 7 0 0 0] by (simp add: Let_def)


section \<open>Flat indices\<close>











section \<open>The rotation offset\<close>

lemma sqrt5_bounds: "11 / 5 < sqrt 5" "sqrt 5 < 9 / 4"
proof -
  have "(11 / 5 :: real)\<^sup>2 < 5" by (simp add: power2_eq_square)
  then show "11 / 5 < sqrt 5" by (rule real_less_rsqrt)
  have "(5 :: real) < (9 / 4)\<^sup>2" by (simp add: power2_eq_square)
  then show "sqrt 5 < 9 / 4" by (intro real_less_lsqrt) simp_all
qed

lemma golden_bounds: "3 / 5 < golden" "golden < 5 / 8"
  using sqrt5_bounds by (simp_all add: golden_def)

lemma golden_offset_range:
  assumes "1 \<le> n"
  shows "0 \<le> golden_offset n" "golden_offset n \<le> n"
proof -
  let ?r = "golden * real_of_int n + 1 / 2"
  have n: "1 \<le> real_of_int n" using assms by simp
  have "0 \<le> golden * real_of_int n" using golden_bounds(1) n by simp
  then have pos: "0 \<le> ?r" by simp
  then have eq: "golden_offset n = \<lfloor>?r\<rfloor>" by (simp add: golden_offset_def c_trunc_def)
  show "0 \<le> golden_offset n" unfolding eq using pos by simp
  have g1: "golden \<le> 1" using golden_bounds(2) by simp
  have "golden * real_of_int n \<le> 1 * real_of_int n"
    by (rule mult_right_mono[OF g1]) (use n in simp)
  then have "?r < real_of_int (n + 1)" by simp
  then have "\<lfloor>?r\<rfloor> < n + 1" by (simp only: floor_less_iff)
  then show "golden_offset n \<le> n" unfolding eq by simp
qed


text \<open>
  C6 states that the offset equals the golden-ratio product rounded to the nearest
  integer, on every call.  The code computes it in \<^verbatim>\<open>double\<close> arithmetic, and whether the
  truncated \<^verbatim>\<open>double\<close> agrees with the exactly rounded product for every \<open>totalPixels\<close>
  is a question about floating-point rounding errors, which this embedding over the
  reals does not decide.  Over the reals the offset for 16 pixels is 10.
\<close>

lemma golden_offset_16: "golden_offset 16 = 10"
proof -
  have "10 \<le> golden * 16 + 1 / 2" "golden * 16 + 1 / 2 < 11"
    using golden_bounds by simp_all
  then have "\<lfloor>golden * 16 + 1 / 2\<rfloor> = 10" by linarith
  moreover have "\<not> golden * 16 + 1 / 2 < 0" using golden_bounds by simp
  ultimately show ?thesis by (simp add: golden_offset_def c_trunc_def)
qed

section \<open>The shuffle loop\<close>

text \<open>
  \<open>pair_pos\<close> is the position \<open>j\<close> paired with \<open>i\<close>; \<open>target\<close> and \<open>origin\<close> are the
  destination and source positions of the copy at step \<open>i\<close>; \<open>report\<close> is the progress
  store of step \<open>i\<close>.
\<close>

definition pair_pos :: "int \<Rightarrow> int \<Rightarrow> int \<Rightarrow> int" where
  "pair_pos n off i = (if i + off \<ge> n then i + off - n else i + off)"

definition target :: "bool \<Rightarrow> int \<Rightarrow> int \<Rightarrow> int list \<Rightarrow> int \<Rightarrow> int" where
  "target enc n off idx k = (if enc then idx ! nat (pair_pos n off k) else idx ! nat k)"

definition origin :: "bool \<Rightarrow> int \<Rightarrow> int \<Rightarrow> int list \<Rightarrow> int \<Rightarrow> int" where
  "origin enc n off idx k = (if enc then idx ! nat k else idx ! nat (pair_pos n off k))"

definition valid_idx :: "int \<Rightarrow> int list \<Rightarrow> bool" where
  "valid_idx n idx \<longleftrightarrow> int (length idx) = n \<and> (\<forall>v \<in> set idx. 0 \<le> v \<and> v < n)"

lemma pair_pos_range:
  "0 \<le> off \<Longrightarrow> off \<le> n \<Longrightarrow> 0 \<le> i \<Longrightarrow> i < n \<Longrightarrow> 0 \<le> pair_pos n off i \<and> pair_pos n off i < n"
  by (simp add: pair_pos_def)

lemma valid_idx_nth: "valid_idx n idx \<Longrightarrow> 0 \<le> k \<Longrightarrow> k < n \<Longrightarrow> 0 \<le> idx ! nat k \<and> idx ! nat k < n"
  unfolding valid_idx_def by (metis nat_less_iff nth_mem of_nat_less_iff)

lemma target_range:
  assumes "0 \<le> off" "off \<le> n" "valid_idx n idx" "0 \<le> k" "k < n"
  shows "0 \<le> target enc n off idx k \<and> target enc n off idx k < n"
    and "0 \<le> origin enc n off idx k \<and> origin enc n off idx k < n"
  using valid_idx_nth[OF assms(3) assms(4,5)] pair_pos_range[OF assms(1,2,4,5)]
    valid_idx_nth[OF assms(3), of "pair_pos n off k"]
  by (simp_all add: target_def origin_def)

definition report :: "int \<Rightarrow> int \<Rightarrow> int \<Rightarrow> shuffle_state \<Rightarrow> shuffle_state" where
  "report i nr n st = (if i = nr then store_progress (c_div (wrap32 (i * 100)) n) st else st)"

lemma shuffle_loop_step:
  assumes "0 \<le> off" "off \<le> n" "valid_idx n idx" "n \<le> int (length src)"
    "n \<le> int (length (dstPtr st))" "0 \<le> i" "i < n"
  shows "shuffle_loop enc i nr n off r idx src st
      = shuffle_loop enc (i + 1) (if i = nr then nr + r else nr) n off r idx src
          (report i nr n (st\<lparr>dstPtr :=
             (dstPtr st)[nat (target enc n off idx i) := src ! nat (origin enc n off idx i)]\<rparr>))"
proof -
  note t = target_range[OF assms(1,2,3,6,7), of enc]
  have l: "int (length idx) = n" using assms(3) by (simp add: valid_idx_def)
  have j: "0 \<le> pair_pos n off i \<and> pair_pos n off i < n"
    by (rule pair_pos_range[OF assms(1,2,6,7)])
  have r1: "rd idx i = Some (idx ! nat i)" using assms(6,7) l by (simp add: rd_def)
  have r2: "rd idx (pair_pos n off i) = Some (idx ! nat (pair_pos n off i))"
    using j l by (simp add: rd_def)
  have r3: "rd src (origin enc n off idx i) = Some (src ! nat (origin enc n off idx i))"
    using t(2) assms(4) by (simp add: rd_def)
  have w: "wr (dstPtr st) (target enc n off idx i) v
      = Some ((dstPtr st)[nat (target enc n off idx i) := v])" for v
    using t(1) assms(5) by (simp add: wr_def)
  have o: "(if enc then idx ! nat i else idx ! nat (pair_pos n off i)) = origin enc n off idx i"
    "(if enc then idx ! nat (pair_pos n off i) else idx ! nat i) = target enc n off idx i"
    by (simp_all add: origin_def target_def)
  show ?thesis
    apply (subst shuffle_loop.simps)
    apply (simp only: assms(7) if_True r1 option.case Let_def pair_pos_def[symmetric] r2 o r3 w)
    apply (cases "i = nr")
     apply (simp_all add: report_def)
    done
qed

lemma shuffle_loop_done: "\<not> i < n \<Longrightarrow> shuffle_loop enc i nr n off r idx src st = Some st"
  by (subst shuffle_loop.simps) simp

lemma dstPtr_report [simp]: "dstPtr (report i nr n st) = dstPtr st"
  by (simp add: report_def store_progress_def)

lemma shuffle_loop_dst:
  assumes "0 \<le> off" "off \<le> n" "valid_idx n idx" "n \<le> int (length src)"
    and inj: "inj_on (target enc n off idx) {0..<n}"
  shows "m = nat (n - i) \<Longrightarrow> 0 \<le> i \<Longrightarrow> n \<le> int (length (dstPtr st)) \<Longrightarrow>
    \<exists>st'. shuffle_loop enc i nr n off r idx src st = Some st' \<and>
      length (dstPtr st') = length (dstPtr st) \<and>
      (\<forall>k. i \<le> k \<and> k < n \<longrightarrow>
         dstPtr st' ! nat (target enc n off idx k) = src ! nat (origin enc n off idx k)) \<and>
      (\<forall>q. (\<forall>k. i \<le> k \<and> k < n \<longrightarrow> nat (target enc n off idx k) \<noteq> q) \<longrightarrow>
         dstPtr st' ! q = dstPtr st ! q)"
proof (induction m arbitrary: i nr st)
  case 0
  then have "\<not> i < n" by simp
  then show ?case by (auto simp: shuffle_loop_done)
next
  case (Suc m)
  then have lt: "i < n" by linarith
  let ?T = "target enc n off idx" and ?O = "origin enc n off idx"
  let ?d = "(dstPtr st)[nat (?T i) := src ! nat (?O i)]"
  let ?st1 = "report i nr n (st\<lparr>dstPtr := ?d\<rparr>)"
  let ?nr = "if i = nr then nr + r else nr"
  note step = shuffle_loop_step[OF assms(1-4) Suc.prems(3,2) lt, of enc nr r]
  have m: "m = nat (n - (i + 1))" using Suc.prems(1) by linarith
  have "\<exists>st'. shuffle_loop enc (i + 1) ?nr n off r idx src ?st1 = Some st' \<and>
      length (dstPtr st') = length (dstPtr ?st1) \<and>
      (\<forall>k. i + 1 \<le> k \<and> k < n \<longrightarrow> dstPtr st' ! nat (?T k) = src ! nat (?O k)) \<and>
      (\<forall>q. (\<forall>k. i + 1 \<le> k \<and> k < n \<longrightarrow> nat (?T k) \<noteq> q) \<longrightarrow>
         dstPtr st' ! q = dstPtr ?st1 ! q)"
    by (rule Suc.IH[OF m]) (use Suc.prems in simp_all)
  then obtain st' where
    run: "shuffle_loop enc (i + 1) ?nr n off r idx src ?st1 = Some st'"
    and len: "length (dstPtr st') = length (dstPtr st)"
    and hi: "\<And>k. i + 1 \<le> k \<Longrightarrow> k < n \<Longrightarrow> dstPtr st' ! nat (?T k) = src ! nat (?O k)"
    and keep: "\<And>q. (\<forall>k. i + 1 \<le> k \<and> k < n \<longrightarrow> nat (?T k) \<noteq> q) \<Longrightarrow>
         dstPtr st' ! q = ?d ! q"
    by auto
  note ti = target_range(1)[OF assms(1-3) Suc.prems(2) lt, of enc]
  have fresh: "\<forall>k. i + 1 \<le> k \<and> k < n \<longrightarrow> nat (?T k) \<noteq> nat (?T i)"
  proof (intro allI impI)
    fix k assume k: "i + 1 \<le> k \<and> k < n"
    then have k0: "0 \<le> k" using Suc.prems(2) by simp
    note tk = target_range(1)[OF assms(1-3) k0, of enc]
    have "?T k \<noteq> ?T i"
      using inj_onD[OF inj, of k i] k k0 Suc.prems(2) lt by auto
    then show "nat (?T k) \<noteq> nat (?T i)" using tk k ti by (simp add: nat_eq_iff)
  qed
  have tl: "nat (?T i) < length (dstPtr st)" using ti Suc.prems(3) by linarith
  have here: "dstPtr st' ! nat (?T i) = src ! nat (?O i)"
    using keep[OF fresh] tl by simp
  have all: "\<forall>k. i \<le> k \<and> k < n \<longrightarrow> dstPtr st' ! nat (?T k) = src ! nat (?O k)"
  proof (intro allI impI)
    fix k assume k: "i \<le> k \<and> k < n"
    show "dstPtr st' ! nat (?T k) = src ! nat (?O k)"
    proof (cases "k = i")
      case True then show ?thesis using here by simp
    next
      case False with k hi[of k] show ?thesis by simp
    qed
  qed
  have rest: "\<forall>q. (\<forall>k. i \<le> k \<and> k < n \<longrightarrow> nat (?T k) \<noteq> q) \<longrightarrow> dstPtr st' ! q = dstPtr st ! q"
  proof (intro allI impI)
    fix q assume q: "\<forall>k. i \<le> k \<and> k < n \<longrightarrow> nat (?T k) \<noteq> q"
    then have "\<forall>k. i + 1 \<le> k \<and> k < n \<longrightarrow> nat (?T k) \<noteq> q" by simp
    from keep[OF this] have "dstPtr st' ! q = ?d ! q" .
    moreover have "nat (?T i) \<noteq> q" using q lt by simp
    ultimately show "dstPtr st' ! q = dstPtr st ! q" by simp
  qed
  show ?case unfolding step using run len all rest by blast
qed


text \<open>A permutation of \<open>[0, n)\<close> as an index buffer: \<open>n\<close> distinct entries, all in range.\<close>

definition is_perm :: "int \<Rightarrow> int list \<Rightarrow> bool" where
  "is_perm n idx \<longleftrightarrow>
     int (length idx) = n \<and> distinct idx \<and> (\<forall>v \<in> set idx. 0 \<le> v \<and> v < n)"

lemma is_perm_valid: "is_perm n idx \<Longrightarrow> valid_idx n idx"
  by (simp add: is_perm_def valid_idx_def)

lemma pair_pos_inj:
  "0 \<le> off \<Longrightarrow> off \<le> n \<Longrightarrow> inj_on (pair_pos n off) {0..<n}"
  by (rule inj_onI) (simp add: pair_pos_def split: if_splits)

lemma is_perm_nth_inj:
  assumes "is_perm n idx" "0 \<le> a" "a < n" "0 \<le> b" "b < n" "idx ! nat a = idx ! nat b"
  shows "a = b"
proof -
  have "nat a < length idx" "nat b < length idx" "distinct idx"
    using assms by (auto simp: is_perm_def)
  then have "nat a = nat b" using assms(6) by (simp add: nth_eq_iff_index_eq)
  then show ?thesis using assms(2,4) by simp
qed

lemma target_inj:
  assumes "0 \<le> off" "off \<le> n" "is_perm n idx"
  shows "inj_on (target enc n off idx) {0..<n}"
proof (rule inj_onI)
  fix a b assume a: "a \<in> {0..<n}" and b: "b \<in> {0..<n}"
    and eq: "target enc n off idx a = target enc n off idx b"
  then have ab: "0 \<le> a" "a < n" "0 \<le> b" "b < n" by simp_all
  show "a = b"
  proof (cases enc)
    case False
    with eq show ?thesis using is_perm_nth_inj[OF assms(3) ab] by (simp add: target_def)
  next
    case True
    note pa = pair_pos_range[OF assms(1,2) ab(1,2)] and pb = pair_pos_range[OF assms(1,2) ab(3,4)]
    from True eq have "idx ! nat (pair_pos n off a) = idx ! nat (pair_pos n off b)"
      by (simp add: target_def)
    then have "pair_pos n off a = pair_pos n off b"
      using is_perm_nth_inj[OF assms(3), of "pair_pos n off a" "pair_pos n off b"] pa pb by simp
    then show ?thesis using inj_onD[OF pair_pos_inj[OF assms(1,2)] _ a b] by simp
  qed
qed

lemma is_perm_onto:
  assumes "is_perm n idx" "0 \<le> p" "p < n"
  shows "\<exists>k. 0 \<le> k \<and> k < n \<and> idx ! nat k = p"
proof -
  have sub: "set idx \<subseteq> {0..<n}" using assms(1) by (auto simp: is_perm_def)
  have "card (set idx) = length idx" using assms(1) by (simp add: is_perm_def distinct_card)
  also have "\<dots> = card {0..<n}" using assms(1) by (auto simp: is_perm_def)
  finally have "set idx = {0..<n}" using sub by (intro card_subset_eq) simp_all
  then have "p \<in> set idx" using assms(2,3) by simp
  then obtain i where i: "i < length idx" "idx ! i = p" by (auto simp: in_set_conv_nth)
  then have "0 \<le> int i \<and> int i < n \<and> idx ! nat (int i) = p"
    using assms(1) by (simp add: is_perm_def)
  then show ?thesis by blast
qed

section \<open>Round trip\<close>

text \<open>
  The two loops undo each other for any offset in \<open>[0, n]\<close>, so the round trip does not
  depend on how the offset was rounded.
\<close>

lemma shuffle_loop_round_trip:
  assumes "0 \<le> off" "off \<le> n" "is_perm n idx"
    and "int (length src) = n" "int (length (dstPtr st1)) = n" "int (length (dstPtr st2)) = n"
  shows "\<exists>mid fin. shuffle_loop True 0 nr n off r idx src st1 = Some mid \<and>
           shuffle_loop False 0 nr' n off r' idx (dstPtr mid) st2 = Some fin \<and>
           dstPtr fin = src"
proof -
  note v = is_perm_valid[OF assms(3)]
  from shuffle_loop_dst[OF assms(1,2) v _ target_inj[OF assms(1-3)] refl, of src 0 st1 True nr r]
    assms(4,5)
  obtain mid where enc: "shuffle_loop True 0 nr n off r idx src st1 = Some mid"
    and lm: "length (dstPtr mid) = length (dstPtr st1)"
    and em: "\<And>k. 0 \<le> k \<Longrightarrow> k < n \<Longrightarrow>
        dstPtr mid ! nat (idx ! nat (pair_pos n off k)) = src ! nat (idx ! nat k)"
    by (auto simp: target_def origin_def)
  from shuffle_loop_dst[OF assms(1,2) v _ target_inj[OF assms(1-3)] refl,
      of "dstPtr mid" 0 st2 False nr' r'] assms(5,6) lm
  obtain fin where dec: "shuffle_loop False 0 nr' n off r' idx (dstPtr mid) st2 = Some fin"
    and lf: "length (dstPtr fin) = length (dstPtr st2)"
    and ef: "\<And>k. 0 \<le> k \<Longrightarrow> k < n \<Longrightarrow>
        dstPtr fin ! nat (idx ! nat k) = dstPtr mid ! nat (idx ! nat (pair_pos n off k))"
    by (auto simp: target_def origin_def)
  have "dstPtr fin = src"
  proof (rule nth_equalityI)
    show "length (dstPtr fin) = length src" using lf assms(4,6) by simp
  next
    fix q assume "q < length (dstPtr fin)"
    then have q: "0 \<le> int q" "int q < n" using lf assms(6) by simp_all
    from is_perm_onto[OF assms(3) q] obtain k where k: "0 \<le> k" "k < n" "idx ! nat k = int q"
      by blast
    have "dstPtr fin ! nat (idx ! nat k) = src ! nat (idx ! nat k)"
      using ef[OF k(1,2)] em[OF k(1,2)] by simp
    then show "dstPtr fin ! q = src ! q" using k(3) by simp
  qed
  with enc dec show ?thesis by blast
qed

text \<open>
  C2: for \<open>totalPixels \<ge> 1\<close>, an index buffer that is a permutation of \<open>[0, totalPixels)\<close>
  and any source buffer of \<open>totalPixels\<close> values, encrypting (\<open>isEncrypt = 1\<close>) into an
  intermediate buffer and then decrypting (\<open>isEncrypt = 0\<close>) the intermediate buffer into
  a third buffer, with the same \<open>totalPixels\<close> and indices, both calls return and the
  final buffer equals the source at every index.
\<close>

theorem pixel_shuffle_round_trip:
  assumes "1 \<le> totalPixels"
    and "int (length idxPtr) = totalPixels" and "distinct idxPtr"
    and "\<forall>v \<in> set idxPtr. 0 \<le> v \<and> v < totalPixels"
    and "int (length srcPtr) = totalPixels"
    and "int (length (dstPtr st1)) = totalPixels"
    and "int (length (dstPtr st2)) = totalPixels"
  shows "\<exists>mid fin. pixel_shuffle totalPixels 1 idxPtr srcPtr st1 = Some mid \<and>
           pixel_shuffle totalPixels 0 idxPtr (dstPtr mid) st2 = Some fin \<and>
           dstPtr fin = srcPtr"
proof -
  have p: "is_perm totalPixels idxPtr" using assms(2-4) by (simp add: is_perm_def)
  note off = golden_offset_range[OF assms(1)]
  let ?r = "if c_div totalPixels 20 < 1 then 1 else c_div totalPixels 20"
  from shuffle_loop_round_trip[OF off p assms(5-7), of 0 ?r 0 ?r]
  obtain mid fin where
    "shuffle_loop True 0 0 totalPixels (golden_offset totalPixels) ?r idxPtr srcPtr st1 = Some mid"
    "shuffle_loop False 0 0 totalPixels (golden_offset totalPixels) ?r idxPtr (dstPtr mid) st2
       = Some fin"
    "dstPtr fin = srcPtr"
    by blast
  then show ?thesis
    by (simp add: pixel_shuffle_def Let_def store_progress_def)
qed

lemma golden_offset_2: "golden_offset 2 = 1"
proof -
  have "1 \<le> golden * 2 + 1 / 2" "golden * 2 + 1 / 2 < 2"
    using golden_bounds by simp_all
  then have "\<lfloor>golden * 2 + 1 / 2\<rfloor> = 1" by linarith
  moreover have "\<not> golden * 2 + 1 / 2 < 0" using golden_bounds by simp
  ultimately show ?thesis by (simp add: golden_offset_def c_trunc_def)
qed

theorem pixel_shuffle_round_trip_witness:
  "(1::int) \<le> 2 \<and> int (length [1, 0 :: int]) = 2 \<and> distinct [1, 0 :: int] \<and>
   int (length [5, 7 :: u32]) = 2 \<and>
   pixel_shuffle 2 1 [1, 0] [5, 7] \<lparr>dstPtr = [0, 0], g_progress = 0, g_stores = []\<rparr>
     = Some \<lparr>dstPtr = [7, 5], g_progress = 100, g_stores = [0, 50, 100]\<rparr> \<and>
   pixel_shuffle 2 0 [1, 0] [7, 5] \<lparr>dstPtr = [0, 0], g_progress = 0, g_stores = []\<rparr>
     = Some \<lparr>dstPtr = [5, 7], g_progress = 100, g_stores = [0, 50, 100]\<rparr>"
proof -
  have enc: "pixel_shuffle 2 1 [1, 0] [5, 7] \<lparr>dstPtr = [0, 0], g_progress = 0, g_stores = []\<rparr>
     = Some \<lparr>dstPtr = [7, 5], g_progress = 100, g_stores = [0, 50, 100]\<rparr>"
    by (simp add: pixel_shuffle_def golden_offset_2 shuffle_loop.simps rd_def wr_def
        store_progress_def c_div_def wrap32_def Let_def)
  have dec: "pixel_shuffle 2 0 [1, 0] [7, 5] \<lparr>dstPtr = [0, 0], g_progress = 0, g_stores = []\<rparr>
     = Some \<lparr>dstPtr = [5, 7], g_progress = 100, g_stores = [0, 50, 100]\<rparr>"
    by (simp add: pixel_shuffle_def golden_offset_2 shuffle_loop.simps rd_def wr_def
        store_progress_def c_div_def wrap32_def Let_def)
  show ?thesis
    using pixel_shuffle_round_trip[of 2 "[1, 0]" "[5, 7]"
      "\<lparr>dstPtr = [0, 0], g_progress = 0, g_stores = []\<rparr>"
      "\<lparr>dstPtr = [0, 0], g_progress = 0, g_stores = []\<rparr>"] enc dec
    by simp
qed

section \<open>Progress reports\<close>

text \<open>
  \<open>report_points nr n r\<close> are the loop positions \<open>nr, nr + r, \<dots>\<close> below \<open>n\<close> at which the
  loop stores a progress value, and \<open>percent n i\<close> is the value stored at position \<open>i\<close>.
\<close>

function report_points :: "int \<Rightarrow> int \<Rightarrow> int \<Rightarrow> int list" where
  "report_points nr n r = (if nr < n \<and> 1 \<le> r then nr # report_points (nr + r) n r else [])"
  by pat_completeness auto
termination
  by (relation "measure (\<lambda>(nr, n, r). nat (n - nr))") auto

declare report_points.simps [simp del]

definition percent :: "int \<Rightarrow> int \<Rightarrow> int" where
  "percent n i = c_div (wrap32 (i * 100)) n"

lemma shuffle_loop_stores:
  assumes "0 \<le> off" "off \<le> n" "valid_idx n idx" "n \<le> int (length src)" "1 \<le> r"
  shows "m = nat (n - i) \<Longrightarrow> 0 \<le> i \<Longrightarrow> i \<le> nr \<Longrightarrow> n \<le> int (length (dstPtr st)) \<Longrightarrow>
    shuffle_loop enc i nr n off r idx src st = Some st' \<Longrightarrow>
    g_stores st' = g_stores st @ map (percent n) (report_points nr n r)"
proof (induction m arbitrary: i nr st)
  case 0
  then have "\<not> i < n" "\<not> nr < n" by simp_all
  then show ?case using 0 by (simp add: shuffle_loop_done report_points.simps)
next
  case (Suc m)
  then have lt: "i < n" by linarith
  let ?st1 = "st\<lparr>dstPtr := (dstPtr st)[nat (target enc n off idx i) :=
      src ! nat (origin enc n off idx i)]\<rparr>"
  note step = shuffle_loop_step[OF assms(1-4) Suc.prems(4,2) lt, of enc nr r]
  have m: "m = nat (n - (i + 1))" using Suc.prems(1) by linarith
  show ?case
  proof (cases "i = nr")
    case True
    have run: "shuffle_loop enc (i + 1) (nr + r) n off r idx src (report i nr n ?st1) = Some st'"
      using Suc.prems(5) unfolding step using True by simp
    have "g_stores st' = g_stores (report i nr n ?st1) @ map (percent n) (report_points (nr + r) n r)"
      by (rule Suc.IH[OF m _ _ _ run]) (use Suc.prems assms(5) True in simp_all)
    moreover have "report_points nr n r = nr # report_points (nr + r) n r"
      using lt True assms(5) by (subst report_points.simps) simp
    ultimately show ?thesis using True
      by (simp add: report_def store_progress_def percent_def)
  next
    case False
    have run: "shuffle_loop enc (i + 1) nr n off r idx src (report i nr n ?st1) = Some st'"
      using Suc.prems(5) unfolding step using False by simp
    have "g_stores st' = g_stores (report i nr n ?st1) @ map (percent n) (report_points nr n r)"
      by (rule Suc.IH[OF m _ _ _ run]) (use Suc.prems False in simp_all)
    then show ?thesis using False by (simp add: report_def)
  qed
qed

lemma pixel_shuffle_stores:
  assumes "1 \<le> n" "is_perm n idx" "n \<le> int (length src)" "n \<le> int (length (dstPtr st))"
  shows "\<exists>st'. pixel_shuffle n e idx src st = Some st' \<and> g_progress st' = 100 \<and>
      g_stores st' = g_stores st
        @ map (percent n) (report_points 0 n (if c_div n 20 < 1 then 1 else c_div n 20)) @ [100]"
proof -
  note off = golden_offset_range[OF assms(1)]
  let ?r = "if c_div n 20 < 1 then 1 else c_div n 20"
  have r: "1 \<le> ?r" by simp
  from shuffle_loop_dst[OF off is_perm_valid[OF assms(2)] assms(3)
      target_inj[OF off assms(2)] refl _ assms(4), of 0 "e \<noteq> 0" 0 ?r]
  obtain st' where
    run: "shuffle_loop (e \<noteq> 0) 0 0 n (golden_offset n) ?r idx src st = Some st'"
    by auto
  have "g_stores st' = g_stores st @ map (percent n) (report_points 0 n ?r)"
    by (rule shuffle_loop_stores[OF off is_perm_valid[OF assms(2)] assms(3) r refl _ _ assms(4) run])
      simp_all
  then show ?thesis using run
    by (simp add: pixel_shuffle_def Let_def store_progress_def)
qed

lemma is_perm_identity: "is_perm (int k) (map int [0..<k])"
  by (auto simp: is_perm_def distinct_map inj_on_def)

text \<open>
  C7: within one call with \<open>totalPixels \<ge> 1\<close> the values stored to the progress counter
  never decrease, lie in \<open>[0, 100]\<close>, and the counter is 100 on return.  The code breaks
  it on large images: \<^verbatim>\<open>i * 100\<close> leaves the 32-bit range once \<open>i > 21474836\<close>.  For
  24000000 pixels (a 6000 by 4000 image) the stores are 0, 5, \<dots>, 85, then -88 and -83,
  then 100.  Lemma \<open>pixel_shuffle_progress_small\<close> below proves the claim for every
  \<open>totalPixels\<close> with \<open>(totalPixels - 1) * 100 < 2^31\<close>.
\<close>

theorem pixel_shuffle_progress_wraps:
  "map_option g_stores
     (pixel_shuffle 24000000 1 (map int [0..<24000000]) (replicate 24000000 0)
        \<lparr>dstPtr = replicate 24000000 0, g_progress = 0, g_stores = []\<rparr>)
   = Some [0, 5, 10, 15, 20, 25, 30, 35, 40, 45, 50, 55, 60, 65, 70, 75, 80, 85, - 88, - 83, 100]"
proof -
  have p: "is_perm 24000000 (map int [0..<24000000])"
    using is_perm_identity[of 24000000] by simp
  have r: "(if c_div 24000000 20 < 1 then 1 else c_div 24000000 20) = 1200000"
    by (simp add: c_div_def)
  have pts: "map (percent 24000000) (report_points 0 24000000 1200000)
      = [0, 5, 10, 15, 20, 25, 30, 35, 40, 45, 50, 55, 60, 65, 70, 75, 80, 85, - 88, - 83]"
    by (simp add: report_points.simps percent_def wrap32_def c_div_def)
  from pixel_shuffle_stores[OF _ p, of "replicate 24000000 0"
      "\<lparr>dstPtr = replicate 24000000 0, g_progress = 0, g_stores = []\<rparr>" 1]
  show ?thesis unfolding r pts by auto
qed


lemma report_points_range: "p \<in> set (report_points nr n r) \<Longrightarrow> nr \<le> p \<and> p < n"
proof (induction nr n r rule: report_points.induct)
  case (1 nr n r)
  show ?case
  proof (cases "nr < n \<and> 1 \<le> r")
    case False
    with 1(2) show ?thesis by (subst (asm) report_points.simps) simp
  next
    case True
    from 1(2) have "p = nr \<or> p \<in> set (report_points (nr + r) n r)"
      by (subst (asm) report_points.simps) (use True in auto)
    then show ?thesis using "1.IH"[OF True] True by auto
  qed
qed

lemma percent_small:
  assumes "1 \<le> n" "(n - 1) * 100 < 2 ^ 31" "0 \<le> p" "p < n"
  shows "percent n p = p * 100 div n"
proof -
  have "p * 100 \<le> (n - 1) * 100" using assms(4) by simp
  then have b: "0 \<le> p * 100" "p * 100 < 2 ^ 31" using assms(2,3) by simp_all
  then have "(p * 100 + 2 ^ 31) mod 2 ^ 32 = p * 100 + 2 ^ 31"
    by (intro mod_pos_pos_trivial) simp_all
  then have "wrap32 (p * 100) = p * 100" by (simp add: wrap32_def)
  then show ?thesis using b(1) assms(1) by (simp add: percent_def c_div_def sgn_if)
qed

lemma percent_range:
  assumes "1 \<le> n" "(n - 1) * 100 < 2 ^ 31" "0 \<le> p" "p < n"
  shows "0 \<le> percent n p \<and> percent n p \<le> 100"
proof -
  have "0 \<le> p * 100 div n" using assms(1,3) by (simp add: pos_imp_zdiv_nonneg_iff)
  moreover have "p * 100 div n \<le> 100 * n div n"
    using assms(1,4) by (intro zdiv_mono1) simp_all
  ultimately show ?thesis using assms(1) unfolding percent_small[OF assms] by simp
qed

lemma percent_mono:
  assumes "1 \<le> n" "(n - 1) * 100 < 2 ^ 31" "0 \<le> p" "p \<le> q" "q < n"
  shows "percent n p \<le> percent n q"
proof -
  have "percent n p = p * 100 div n" by (rule percent_small) (use assms in simp_all)
  moreover have "percent n q = q * 100 div n" by (rule percent_small) (use assms in simp_all)
  moreover have "p * 100 div n \<le> q * 100 div n"
    using assms(1,4) by (intro zdiv_mono1) simp_all
  ultimately show ?thesis by simp
qed

lemma sorted_percent_points:
  "1 \<le> n \<Longrightarrow> (n - 1) * 100 < 2 ^ 31 \<Longrightarrow> 0 \<le> nr \<Longrightarrow>
   sorted (map (percent n) (report_points nr n r))"
proof (induction nr n r rule: report_points.induct)
  case (1 nr n r)
  show ?case
  proof (cases "nr < n \<and> 1 \<le> r")
    case False
    then have "report_points nr n r = []" by (subst report_points.simps) auto
    then show ?thesis by simp
  next
    case True
    have ih: "sorted (map (percent n) (report_points (nr + r) n r))"
      by (rule "1.IH"[OF True 1(2,3)]) (use True 1(4) in simp)
    have "\<forall>p \<in> set (report_points (nr + r) n r). percent n nr \<le> percent n p"
    proof
      fix p assume "p \<in> set (report_points (nr + r) n r)"
      from report_points_range[OF this] True have "nr \<le> p" "p < n" by simp_all
      then show "percent n nr \<le> percent n p"
        by (rule percent_mono[OF 1(2,3,4)])
    qed
    moreover have "report_points nr n r = nr # report_points (nr + r) n r"
      using True by (subst report_points.simps) simp
    ultimately show ?thesis using ih by simp
  qed
qed

lemma pixel_shuffle_progress_small:
  assumes "1 \<le> n" "(n - 1) * 100 < 2 ^ 31" "is_perm n idx" "n \<le> int (length src)"
    "n \<le> int (length (dstPtr st))"
  shows "\<exists>st' new. pixel_shuffle n e idx src st = Some st' \<and> g_progress st' = 100 \<and>
      g_stores st' = g_stores st @ new \<and> sorted new \<and> (\<forall>v \<in> set new. 0 \<le> v \<and> v \<le> 100)
      \<and> last new = 100"
proof -
  let ?pts = "report_points 0 n (if c_div n 20 < 1 then 1 else c_div n 20)"
  let ?new = "map (percent n) ?pts @ [100]"
  from pixel_shuffle_stores[OF assms(1,3,4,5), of e] obtain st' where
    st': "pixel_shuffle n e idx src st = Some st'" "g_progress st' = 100"
    "g_stores st' = g_stores st @ ?new" by auto
  have rng: "\<forall>v \<in> set (map (percent n) ?pts). 0 \<le> v \<and> v \<le> 100"
  proof
    fix v assume "v \<in> set (map (percent n) ?pts)"
    then obtain p where p: "p \<in> set ?pts" "v = percent n p" by auto
    from report_points_range[OF p(1)] show "0 \<le> v \<and> v \<le> 100"
      unfolding p(2) by (intro percent_range[OF assms(1,2)]) simp_all
  qed
  have "sorted (map (percent n) ?pts)"
    by (rule sorted_percent_points[OF assms(1,2)]) simp
  then have "sorted ?new" using rng by (simp add: sorted_append)
  moreover have "\<forall>v \<in> set ?new. 0 \<le> v \<and> v \<le> 100" using rng by simp
  ultimately show ?thesis using st' by (intro exI[of _ st'] exI[of _ ?new]) simp
qed


section \<open>Pixel shuffle on an empty image\<close>

text \<open>
  C9, as stated: with \<open>totalPixels \<le> 0\<close> a call of \<^verbatim>\<open>pixel_shuffle\<close> leaves all observable
  state unchanged, the progress counter included.  The statement fails: the loops do not
  run, but the final \<^verbatim>\<open>g_progress = 100\<close> is not guarded.  With no pixels and the counter
  at 0, the call returns with the counter at 100.
\<close>

theorem pixel_shuffle_empty_sets_progress:
  "map_option g_progress
     (pixel_shuffle 0 1 [] [] \<lparr>dstPtr = [], g_progress = 0, g_stores = []\<rparr>) = Some 100
   \<and> g_progress \<lparr>dstPtr = [], g_progress = 0, g_stores = []\<rparr> = 0"
  by (simp add: pixel_shuffle_def shuffle_loop.simps store_progress_def)

text \<open>
  C9, amended: with \<open>totalPixels \<le> 0\<close> a call of \<^verbatim>\<open>pixel_shuffle\<close> returns, writes no element
  of the destination buffer, and its only effect is the one store of 100 to the progress
  counter.
\<close>

theorem pixel_shuffle_nonpositive:
  assumes "totalPixels \<le> 0"
  shows "pixel_shuffle totalPixels isEncrypt idxPtr srcPtr st
           = Some (st\<lparr>g_progress := 100, g_stores := g_stores st @ [100]\<rparr>)"
  using assms by (simp add: pixel_shuffle_def shuffle_loop.simps store_progress_def)

theorem pixel_shuffle_nonpositive_witness:
  "(- 3 :: int) \<le> 0 \<and>
   pixel_shuffle (- 3) 0 [0] [7] \<lparr>dstPtr = [9], g_progress = 40, g_stores = [40]\<rparr>
     = Some \<lparr>dstPtr = [9], g_progress = 100, g_stores = [40, 100]\<rparr>"
  using pixel_shuffle_nonpositive
    [of "- 3" 0 "[0]" "[7]" "\<lparr>dstPtr = [9], g_progress = 40, g_stores = [40]\<rparr>"]
  by simp

end
